theory Spec2Isabelle
  imports Complex_Main "HOL-Library.AList" "HOL-Library.Sublist"
begin

section \<open>Python values, dictionaries, exceptions and lazy sequences\<close>

text \<open>
  The leaves of a JSON document, as far as the code under study looks at them: a number,
  a string that \<^verbatim>\<open>float()\<close> parses (kept as the number it parses to), and anything
  else. Floating point rounding is not modelled; numbers are reals.
\<close>

datatype val = Number real | NumericStr real | Other

text \<open>
  A Python \<^verbatim>\<open>dict\<close> with string keys, as an association list in insertion order.
  \<^verbatim>\<open>d[k] = v\<close> is \<open>AList.update k v d\<close>, \<^verbatim>\<open>d.get(k)\<close> is \<open>map_of d k\<close>,
  and the truth value of \<^verbatim>\<open>d\<close> is \<open>d \<noteq> []\<close>.
\<close>

type_synonym pydict = "(string \<times> val) list"

datatype err = KeyError string | TypeError | ValueError | StreamError string

text \<open>
  An iterator that yields finitely many items and then either ends or raises.
\<close>

datatype 'a gen = Gen (items: "'a list") (raises: "err option")

text \<open>\<^verbatim>\<open>float(v)\<close>.\<close>

fun py_float :: "val \<Rightarrow> err + real" where
  "py_float (Number x) = Inr x"
| "py_float (NumericStr x) = Inr x"
| "py_float Other = Inl TypeError"

text \<open>\<^verbatim>\<open>max(x, v)\<close> for a float \<open>x\<close>: a string or \<^verbatim>\<open>None\<close> does not compare with a float.\<close>

fun py_max :: "real \<Rightarrow> val \<Rightarrow> err + val" where
  "py_max x (Number y) = Inr (Number (if y > x then y else x))"
| "py_max x (NumericStr y) = Inl TypeError"
| "py_max x Other = Inl TypeError"

section \<open>The store: dictionaries held by reference, and the logger\<close>

type_synonym addr = nat

datatype log_entry =
    Info_starting_syncing string
  | Info_syncing_stream string
  | Info_setting_state_get string "val option"
  | Info_setting_state string pydict
  | Info_read_records int string
  | Exception_while_reading string
  | Info_finished_syncing string

text \<open>
  The connector state is a two-level structure: an outer dictionary from stream name to a
  per-stream state dictionary. Both levels are mutable objects held by reference, so the
  store has the outer dictionaries (their values are addresses of per-stream dictionaries)
  and the per-stream dictionaries. An address is an index; allocation appends. The
  logger's output so far is part of the world as well.
\<close>

record world =
  outers :: "(string \<times> addr) list list"
  blobs :: "pydict list"
  logs :: "log_entry list"

definition outer_at :: "world \<Rightarrow> addr \<Rightarrow> (string \<times> addr) list" where
  "outer_at w a = (if a < length (outers w) then outers w ! a else [])"

definition blob_at :: "world \<Rightarrow> addr \<Rightarrow> pydict" where
  "blob_at w a = (if a < length (blobs w) then blobs w ! a else [])"

definition alloc_outer :: "(string \<times> addr) list \<Rightarrow> world \<Rightarrow> addr \<times> world" where
  "alloc_outer d w = (length (outers w), w\<lparr>outers := outers w @ [d]\<rparr>)"

definition alloc_blob :: "pydict \<Rightarrow> world \<Rightarrow> addr \<times> world" where
  "alloc_blob d w = (length (blobs w), w\<lparr>blobs := blobs w @ [d]\<rparr>)"

definition blob_store :: "addr \<Rightarrow> pydict \<Rightarrow> world \<Rightarrow> world" where
  "blob_store a d w = w\<lparr>blobs := (blobs w)[a := d]\<rparr>"

definition outer_setitem :: "addr \<Rightarrow> string \<Rightarrow> addr \<Rightarrow> world \<Rightarrow> world" where
  "outer_setitem a k v w = w\<lparr>outers := (outers w)[a := AList.update k v (outer_at w a)]\<rparr>"

definition logger :: "log_entry \<Rightarrow> world \<Rightarrow> world" where
  "logger e w = w\<lparr>logs := logs w @ [e]\<rparr>"

text \<open>
  The content of a whole connector-state map at one moment: every stream name with the
  content of its per-stream dictionary.
\<close>

definition snapshot :: "world \<Rightarrow> addr \<Rightarrow> (string \<times> pydict) list" where
  "snapshot w a = map (\<lambda>(k, b). (k, blob_at w b)) (outer_at w a)"

text \<open>
  \<^verbatim>\<open>copy.deepcopy\<close> of an outer dictionary: every per-stream dictionary is copied to a
  new object; the memo keeps two entries that share one object sharing one copy.
\<close>

fun deepcopy_items ::
  "(addr \<times> addr) list \<Rightarrow> (string \<times> addr) list \<Rightarrow> world \<Rightarrow> (string \<times> addr) list \<times> world" where
  "deepcopy_items memo [] w = ([], w)"
| "deepcopy_items memo ((k, a) # kvs) w =
     (case map_of memo a of
        Some a' \<Rightarrow>
          (case deepcopy_items memo kvs w of (r, w') \<Rightarrow> ((k, a') # r, w'))
      | None \<Rightarrow>
          (case alloc_blob (blob_at w a) w of (a', w1) \<Rightarrow>
             (case deepcopy_items ((a, a') # memo) kvs w1 of (r, w') \<Rightarrow> ((k, a') # r, w'))))"

text \<open>\<^verbatim>\<open>copy.deepcopy(state or {})\<close>; \<open>state\<close> is \<^verbatim>\<open>None\<close> or a reference.\<close>

definition deepcopy_state :: "addr option \<Rightarrow> world \<Rightarrow> addr \<times> world" where
  "deepcopy_state state w =
     (case deepcopy_items [] (case state of None \<Rightarrow> [] | Some a \<Rightarrow> outer_at w a) w of
        (d, w') \<Rightarrow> alloc_outer d w')"

section \<open>Messages, configured streams and the stream contract\<close>

datatype SyncMode = full_refresh | incremental

text \<open>
  A RECORD message has the stream name and the record's data (the wall-clock
  \<^verbatim>\<open>emitted_at\<close> is left out); a STATE message has the content of the whole
  connector-state map at the moment it is emitted.
\<close>

datatype message = RECORD string pydict | STATE "(string \<times> pydict) list"

fun is_RECORD :: "message \<Rightarrow> bool" where
  "is_RECORD (RECORD n d) = True"
| "is_RECORD (STATE d) = False"

fun is_STATE :: "message \<Rightarrow> bool" where
  "is_STATE (RECORD n d) = False"
| "is_STATE (STATE d) = True"

text \<open>
  \<^verbatim>\<open>ConfiguredAirbyteStream\<close>: \<open>configured_name\<close> is \<^verbatim>\<open>configured_stream.stream.name\<close>.
\<close>

record ConfiguredAirbyteStream =
  configured_name :: string
  sync_mode :: SyncMode
  cursor_field :: "string list option"

text \<open>
  What \<^verbatim>\<open>get_updated_state\<close> hands back: the dictionary it was given, mutated to the
  new content, or a new dictionary.
\<close>

datatype upd = InPlace pydict | Fresh pydict

text \<open>
  The stream contract (class \<^verbatim>\<open>Stream\<close>, whose source is not part of the files at
  hand) as a record of its members. A stream sees the content of the state dictionary at
  the time of the call; \<open>'sl\<close> is the type of its slices.
\<close>

record 'sl Stream =
  name :: string
  supports_incremental :: bool
  state_checkpoint_interval :: "int option"
  stream_slices :: "SyncMode \<Rightarrow> string list option \<Rightarrow> pydict option \<Rightarrow> 'sl gen"
  read_records :: "SyncMode \<Rightarrow> 'sl \<Rightarrow> pydict option \<Rightarrow> string list option \<Rightarrow> pydict gen"
  get_updated_state :: "pydict \<Rightarrow> pydict \<Rightarrow> err + upd"

section \<open>The orchestrator: \<^verbatim>\<open>AbstractSource\<close>\<close>

definition as_airbyte_record :: "string \<Rightarrow> pydict \<Rightarrow> message" where
  "as_airbyte_record stream_name data = RECORD stream_name data"

definition checkpoint_state :: "string \<Rightarrow> addr \<Rightarrow> addr \<Rightarrow> world \<Rightarrow> message \<times> world" where
  "checkpoint_state stream_name stream_state connector_state w =
     (let w1 = logger (Info_setting_state stream_name (blob_at w stream_state)) w;
          w2 = outer_setitem connector_state stream_name stream_state w1
      in (STATE (snapshot w2 connector_state), w2))"

fun apply_upd :: "upd \<Rightarrow> addr \<Rightarrow> world \<Rightarrow> addr \<times> world" where
  "apply_upd (InPlace d) stream_state w = (stream_state, blob_store stream_state d w)"
| "apply_upd (Fresh d) stream_state w = alloc_blob d w"

text \<open>
  \<^verbatim>\<open>checkpoint_interval and record_counter % checkpoint_interval == 0\<close>
\<close>

definition checkpoint_due :: "int option \<Rightarrow> int \<Rightarrow> bool" where
  "checkpoint_due checkpoint_interval record_counter =
     (case checkpoint_interval of
        None \<Rightarrow> False
      | Some k \<Rightarrow> k \<noteq> 0 \<and> record_counter mod k = 0)"

text \<open>
  The loop over the records of one slice in \<^verbatim>\<open>_read_incremental\<close>. The result has the
  messages yielded, the exception that ended the loop if one did, the state reference
  and the world at the end.
\<close>

fun records_loop ::
  "'sl Stream \<Rightarrow> string \<Rightarrow> addr \<Rightarrow> pydict list \<Rightarrow> int \<Rightarrow> addr \<Rightarrow> world
     \<Rightarrow> message list \<times> err option \<times> addr \<times> world" where
  "records_loop s stream_name cs [] record_counter stream_state w = ([], None, stream_state, w)"
| "records_loop s stream_name cs (record_data # rest) record_counter stream_state w =
     (case get_updated_state s (blob_at w stream_state) record_data of
        Inl e \<Rightarrow> ([as_airbyte_record stream_name record_data], Some e, stream_state, w)
      | Inr u \<Rightarrow>
          (case apply_upd u stream_state w of (st1, w1) \<Rightarrow>
             (if checkpoint_due (state_checkpoint_interval s) (record_counter + 1)
              then
                (case checkpoint_state stream_name st1 cs w1 of (m, w2) \<Rightarrow>
                   (case records_loop s stream_name cs rest (record_counter + 1) st1 w2 of
                      (ms, r) \<Rightarrow> (as_airbyte_record stream_name record_data # m # ms, r)))
              else
                (case records_loop s stream_name cs rest (record_counter + 1) st1 w1 of
                   (ms, r) \<Rightarrow> (as_airbyte_record stream_name record_data # ms, r)))))"

text \<open>\<^verbatim>\<open>cursor_field or None\<close>\<close>

definition or_None :: "string list option \<Rightarrow> string list option" where
  "or_None cf = (case cf of None \<Rightarrow> None | Some xs \<Rightarrow> (if xs = [] then None else Some xs))"

text \<open>The body of the loop over slices: one slice, then its trailing checkpoint.\<close>

definition read_slice ::
  "'sl Stream \<Rightarrow> ConfiguredAirbyteStream \<Rightarrow> addr \<Rightarrow> 'sl \<Rightarrow> addr \<Rightarrow> world
     \<Rightarrow> message list \<times> err option \<times> addr \<times> world" where
  "read_slice s c cs slice stream_state w =
     (let records = read_records s incremental slice (Some (blob_at w stream_state))
                      (or_None (cursor_field c))
      in case records_loop s (configured_name c) cs (items records) 0 stream_state w of
           (ms, Some e, st1, w1) \<Rightarrow> (ms, Some e, st1, w1)
         | (ms, None, st1, w1) \<Rightarrow>
             (case raises records of
                Some e \<Rightarrow> (ms, Some e, st1, w1)
              | None \<Rightarrow>
                  (case checkpoint_state (configured_name c) st1 cs w1 of
                     (m, w2) \<Rightarrow> (ms @ [m], None, st1, w2))))"

fun slices_loop ::
  "'sl Stream \<Rightarrow> ConfiguredAirbyteStream \<Rightarrow> addr \<Rightarrow> 'sl list \<Rightarrow> addr \<Rightarrow> world
     \<Rightarrow> message list \<times> err option \<times> addr \<times> world" where
  "slices_loop s c cs [] stream_state w = ([], None, stream_state, w)"
| "slices_loop s c cs (slice # rest) stream_state w =
     (case read_slice s c cs slice stream_state w of
        (ms, Some e, st1, w1) \<Rightarrow> (ms, Some e, st1, w1)
      | (ms, None, st1, w1) \<Rightarrow>
          (case slices_loop s c cs rest st1 w1 of (ms2, r) \<Rightarrow> (ms @ ms2, r)))"

text \<open>\<^verbatim>\<open>connector_state.get(stream_name, {})\<close>: the entry, or a new empty dictionary.\<close>

definition get_stream_state :: "addr \<Rightarrow> string \<Rightarrow> world \<Rightarrow> addr \<times> world" where
  "get_stream_state cs stream_name w =
     (case map_of (outer_at w cs) stream_name of
        Some a \<Rightarrow> (a, w)
      | None \<Rightarrow> alloc_blob [] w)"

definition read_incremental ::
  "'sl Stream \<Rightarrow> ConfiguredAirbyteStream \<Rightarrow> addr \<Rightarrow> world
     \<Rightarrow> message list \<times> err option \<times> world" where
  "read_incremental s c cs w =
     (case get_stream_state cs (configured_name c) w of (stream_state, w1) \<Rightarrow>
        (let w2 = (if blob_at w1 stream_state \<noteq> []
                   then logger (Info_setting_state_get (configured_name c)
                                  (map_of (blob_at w1 stream_state) (configured_name c))) w1
                   else w1);
             slices = stream_slices s incremental (cursor_field c)
                        (Some (blob_at w2 stream_state))
         in case slices_loop s c cs (items slices) stream_state w2 of
              (ms, Some e, st1, w3) \<Rightarrow> (ms, Some e, w3)
            | (ms, None, st1, w3) \<Rightarrow> (ms, raises slices, w3)))"

text \<open>
  \<^verbatim>\<open>_read_full_refresh\<close> touches neither the connector state nor the logger: its result
  is the messages yielded and the exception that ended it, if one did.
\<close>

fun full_refresh_slices ::
  "'sl Stream \<Rightarrow> ConfiguredAirbyteStream \<Rightarrow> 'sl list \<Rightarrow> message list \<times> err option" where
  "full_refresh_slices s c [] = ([], None)"
| "full_refresh_slices s c (slices # rest) =
     (let records = read_records s full_refresh slices None (cursor_field c);
          ms = map (as_airbyte_record (configured_name c)) (items records)
      in case raises records of
           Some e \<Rightarrow> (ms, Some e)
         | None \<Rightarrow> (case full_refresh_slices s c rest of (ms2, r) \<Rightarrow> (ms @ ms2, r)))"

definition read_full_refresh ::
  "'sl Stream \<Rightarrow> ConfiguredAirbyteStream \<Rightarrow> message list \<times> err option" where
  "read_full_refresh s c =
     (let slices = stream_slices s full_refresh (cursor_field c) None
      in case full_refresh_slices s c (items slices) of
           (ms, Some e) \<Rightarrow> (ms, Some e)
         | (ms, None) \<Rightarrow> (ms, raises slices))"

definition use_incremental :: "'sl Stream \<Rightarrow> ConfiguredAirbyteStream \<Rightarrow> bool" where
  "use_incremental stream_instance configured_stream =
     (sync_mode configured_stream = incremental \<and> supports_incremental stream_instance)"

definition read_stream ::
  "'sl Stream \<Rightarrow> ConfiguredAirbyteStream \<Rightarrow> addr \<Rightarrow> world
     \<Rightarrow> message list \<times> err option \<times> world" where
  "read_stream s c cs w =
     (let w1 = logger (Info_syncing_stream (configured_name c)) w
      in case (if use_incremental s c then read_incremental s c cs w1
               else (case read_full_refresh s c of (ms, e) \<Rightarrow> (ms, e, w1))) of
           (ms, Some e, w2) \<Rightarrow> (ms, Some e, w2)
         | (ms, None, w2) \<Rightarrow>
             (ms, None,
              logger (Info_read_records (int (length (filter is_RECORD ms))) (configured_name c)) w2))"

text \<open>
  \<^verbatim>\<open>{s.name: s for s in self.streams(config)}\<close>: of two streams with one name the
  later one stays.
\<close>

definition stream_instances :: "'sl Stream list \<Rightarrow> string \<Rightarrow> 'sl Stream option" where
  "stream_instances streams = map_of (rev (map (\<lambda>s. (name s, s)) streams))"

text \<open>The loop over the configured streams in \<^verbatim>\<open>read\<close>, with its \<^verbatim>\<open>try\<close>.\<close>

fun catalog_loop ::
  "string \<Rightarrow> 'sl Stream list \<Rightarrow> ConfiguredAirbyteStream list \<Rightarrow> addr \<Rightarrow> world
     \<Rightarrow> message list \<times> err option \<times> world" where
  "catalog_loop self_name streams [] cs w = ([], None, w)"
| "catalog_loop self_name streams (configured_stream # rest) cs w =
     (case stream_instances streams (configured_name configured_stream) of
        None \<Rightarrow>
          ([], Some (KeyError (configured_name configured_stream)),
           logger (Exception_while_reading self_name) w)
      | Some stream_instance \<Rightarrow>
          (case read_stream stream_instance configured_stream cs w of
             (ms, Some e, w1) \<Rightarrow> (ms, Some e, logger (Exception_while_reading self_name) w1)
           | (ms, None, w1) \<Rightarrow>
               (case catalog_loop self_name streams rest cs w1 of
                  (ms2, r) \<Rightarrow> (ms @ ms2, r))))"

text \<open>
  \<^verbatim>\<open>read\<close>, run until the sequence of messages it returns is exhausted or raises:
  \<open>self_name\<close> is \<^verbatim>\<open>self.name\<close> (the name of the source's class), \<open>streams\<close> is what
  \<^verbatim>\<open>self.streams(config)\<close> returns, \<open>state\<close> is the caller's state argument.
\<close>

definition read ::
  "string \<Rightarrow> 'sl Stream list \<Rightarrow> ConfiguredAirbyteStream list \<Rightarrow> addr option \<Rightarrow> world
     \<Rightarrow> message list \<times> err option \<times> world" where
  "read self_name streams catalog state w =
     (case deepcopy_state state w of (connector_state, w1) \<Rightarrow>
        (case catalog_loop self_name streams catalog connector_state
                (logger (Info_starting_syncing self_name) w1) of
           (ms, Some e, w2) \<Rightarrow> (ms, Some e, w2)
         | (ms, None, w2) \<Rightarrow> (ms, None, logger (Info_finished_syncing self_name) w2)))"

section \<open>The Slack connector's incremental streams\<close>

text \<open>\<^verbatim>\<open>IncrementalMessageStream.get_updated_state\<close>\<close>

definition IncrementalMessageStream_get_updated_state :: "pydict \<Rightarrow> pydict \<Rightarrow> err + upd" where
  "IncrementalMessageStream_get_updated_state current_stream_state latest_record =
     (case map_of latest_record ''ts'' of
        None \<Rightarrow> Inl (KeyError ''ts'')
      | Some v \<Rightarrow>
          (case py_float v of
             Inl e \<Rightarrow> Inl e
           | Inr x \<Rightarrow>
               (case py_max x (case map_of current_stream_state ''ts'' of
                                 None \<Rightarrow> Number 0 | Some t \<Rightarrow> t) of
                  Inl e \<Rightarrow> Inl e
                | Inr m \<Rightarrow>
                    Inr ((if current_stream_state \<noteq> [] then InPlace else Fresh)
                           (AList.update ''ts'' m current_stream_state)))))"

text \<open>
  \<^verbatim>\<open>chunk_date_range\<close>: a \<^verbatim>\<open>DateTime\<close> is its UTC timestamp in seconds, a day has
  86400 of them, and \<open>now\<close> is what \<^verbatim>\<open>pendulum.now()\<close> returns.
\<close>

function chunk_date_range :: "real \<Rightarrow> real \<Rightarrow> real \<Rightarrow> pydict list" where
  "chunk_date_range now interval start_date =
     (if start_date \<le> now
      then [(''oldest'', Number start_date),
            (''latest'', Number (start_date + 86400 * interval))]
           # chunk_date_range now interval (start_date + 86400)
      else [])"
  by pat_completeness auto
termination
proof (relation "measure (\<lambda>(now, interval, start_date). nat (\<lfloor>(now - start_date) / 86400\<rfloor> + 1))")
  show "wf (measure (\<lambda>(now, interval, start_date). nat (\<lfloor>(now - start_date) / 86400\<rfloor> + 1)))"
    by simp
next
  fix now interval start_date :: real
  assume le: "start_date \<le> now"
  have eq: "(now - (start_date + 86400)) / 86400 = (now - start_date) / 86400 - 1"
    by (simp add: field_simps)
  have nonneg: "0 \<le> \<lfloor>(now - start_date) / 86400\<rfloor>"
    using le by simp
  have "\<lfloor>(now - (start_date + 86400)) / 86400\<rfloor> = \<lfloor>(now - start_date) / 86400\<rfloor> - 1"
    unfolding eq by simp
  with nonneg
  show "((now, interval, start_date + 86400), (now, interval, start_date))
          \<in> measure (\<lambda>(now, interval, start_date). nat (\<lfloor>(now - start_date) / 86400\<rfloor> + 1))"
    by simp
qed

declare chunk_date_range.simps [simp del]

text \<open>
  \<^verbatim>\<open>ChannelMessages.stream_slices\<close>; \<open>default_start_date\<close> is the timestamp of
  \<^verbatim>\<open>self._default_start_date\<close>.
\<close>

definition ChannelMessages_stream_slices :: "real \<Rightarrow> real \<Rightarrow> pydict option \<Rightarrow> pydict gen" where
  "ChannelMessages_stream_slices now default_start_date stream_state =
     (let stream_state = (case stream_state of None \<Rightarrow> [] | Some d \<Rightarrow> d)
      in case (case map_of stream_state ''start_ts'' of
                 None \<Rightarrow> Number default_start_date | Some v \<Rightarrow> v) of
           Number start_date \<Rightarrow> Gen (chunk_date_range now 1 start_date) None
         | NumericStr x \<Rightarrow> Gen [] (Some TypeError)
         | Other \<Rightarrow> Gen [] (Some TypeError))"

text \<open>
  \<^verbatim>\<open>ChannelMessages.read_records\<close>. The HTTP layer is not part of the files at hand:
  \<open>http\<close> is what \<^verbatim>\<open>HttpStream.read_records\<close> yields for a slice, \<open>channels\<close> what
  reading the \<^verbatim>\<open>Channels\<close> stream yields.
\<close>

fun read_channels :: "(pydict \<Rightarrow> pydict gen) \<Rightarrow> pydict \<Rightarrow> pydict list \<Rightarrow> err option \<Rightarrow> pydict gen" where
  "read_channels http stream_slice [] end = Gen [] end"
| "read_channels http stream_slice (channel_record # rest) end =
     (case map_of channel_record ''id'' of
        None \<Rightarrow> Gen [] (Some (KeyError ''id''))
      | Some i \<Rightarrow>
          (let stream_slice = AList.update ''channel'' i stream_slice;
               g = http stream_slice
           in case raises g of
                Some e \<Rightarrow> g
              | None \<Rightarrow>
                  (case read_channels http stream_slice rest end of
                     Gen rs e \<Rightarrow> Gen (items g @ rs) e)))"

definition ChannelMessages_read_records ::
  "pydict gen \<Rightarrow> (pydict \<Rightarrow> pydict gen) \<Rightarrow> pydict \<Rightarrow> pydict gen" where
  "ChannelMessages_read_records channels http stream_slice =
     (if ''channel'' \<in> fst ` set stream_slice then http stream_slice
      else read_channels http stream_slice (items channels) (raises channels))"

text \<open>
  A \<^verbatim>\<open>ChannelMessages\<close> instance; \<open>base\<close> has the members it inherits from the absent
  base classes (its name, whether it supports incremental reads, its checkpoint
  interval).
\<close>

definition ChannelMessages ::
  "pydict Stream \<Rightarrow> real \<Rightarrow> real \<Rightarrow> pydict gen \<Rightarrow> (pydict \<Rightarrow> pydict gen) \<Rightarrow> pydict Stream" where
  "ChannelMessages base now default_start_date channels http =
     base\<lparr>stream_slices := (\<lambda>mode cf st. ChannelMessages_stream_slices now default_start_date st),
          read_records := (\<lambda>mode sl st cf. ChannelMessages_read_records channels http sl),
          get_updated_state := IncrementalMessageStream_get_updated_state\<rparr>"

section \<open>Example inputs\<close>

text \<open>
  A stream with one slice of five records whose cursor field \<^verbatim>\<open>ts\<close> runs from 1 to 5,
  a checkpoint interval of 2 and the Slack streams' state update.
\<close>

definition example_stream :: "unit Stream" where
  "example_stream =
     \<lparr>name = ''messages'', supports_incremental = True, state_checkpoint_interval = Some 2,
      stream_slices = (\<lambda>mode cf st. Gen [()] None),
      read_records = (\<lambda>mode sl st cf. Gen (map (\<lambda>t. [(''ts'', Number t)]) [1, 2, 3, 4, 5]) None),
      get_updated_state = IncrementalMessageStream_get_updated_state\<rparr>"

definition example_configured :: ConfiguredAirbyteStream where
  "example_configured =
     \<lparr>configured_name = ''messages'', sync_mode = incremental, cursor_field = Some [''ts'']\<rparr>"

text \<open>A stream without incremental support, with two slices of one record each.\<close>

definition example_users :: "nat Stream" where
  "example_users =
     \<lparr>name = ''users'', supports_incremental = False, state_checkpoint_interval = None,
      stream_slices = (\<lambda>mode cf st. Gen [1, 2] None),
      read_records = (\<lambda>mode sl st cf. Gen [[(''id'', Number (real sl))]] None),
      get_updated_state = (\<lambda>st r. Inr (InPlace st))\<rparr>"

definition example_users_configured :: ConfiguredAirbyteStream where
  "example_users_configured =
     \<lparr>configured_name = ''users'', sync_mode = incremental, cursor_field = None\<rparr>"

text \<open>A world with one empty connector-state map and one empty per-stream dictionary.\<close>

definition example_world :: world where
  "example_world = \<lparr>outers = [[]], blobs = [[]], logs = []\<rparr>"

text \<open>The same stream's configured state in a world of the caller: one outer dictionary
  whose entry for the stream has the cursor value \<open>t\<close>.\<close>

definition seeded_world :: "real \<Rightarrow> world" where
  "seeded_world t = \<lparr>outers = [[(''messages'', 0)]], blobs = [[(''ts'', Number t)]], logs = []\<rparr>"

text \<open>
  A second incremental stream: one slice that yields one record and then ends as \<open>end\<close>
  says, so with an exception when \<open>end\<close> is one.
\<close>

definition example_threads :: "err option \<Rightarrow> unit Stream" where
  "example_threads end =
     \<lparr>name = ''threads'', supports_incremental = True, state_checkpoint_interval = None,
      stream_slices = (\<lambda>mode cf st. Gen [()] None),
      read_records = (\<lambda>mode sl st cf. Gen [[(''ts'', Number 7)]] end),
      get_updated_state = IncrementalMessageStream_get_updated_state\<rparr>"

definition example_threads_configured :: ConfiguredAirbyteStream where
  "example_threads_configured =
     \<lparr>configured_name = ''threads'', sync_mode = incremental, cursor_field = Some [''ts'']\<rparr>"

text \<open>A caller's state with an entry for each of the two streams.\<close>

definition two_stream_world :: world where
  "two_stream_world =
     \<lparr>outers = [[(''threads'', 0), (''messages'', 1)]],
      blobs = [[(''ts'', Number 6)], [(''ts'', Number 3)]], logs = []\<rparr>"

section \<open>Observations on records, states and stores\<close>

text \<open>The cursor value of a record of the Slack streams: \<^verbatim>\<open>float(record["ts"])\<close>.\<close>

definition cursor_value :: "pydict \<Rightarrow> real option" where
  "cursor_value r =
     (case map_of r ''ts'' of
        None \<Rightarrow> None
      | Some v \<Rightarrow> (case py_float v of Inl e \<Rightarrow> None | Inr x \<Rightarrow> Some x))"

text \<open>The cursor value a per-stream state tracks: the number under \<^verbatim>\<open>ts\<close>.\<close>

definition tracked :: "pydict \<Rightarrow> real option" where
  "tracked b = (case map_of b ''ts'' of Some (Number t) \<Rightarrow> Some t | _ \<Rightarrow> None)"

text \<open>\<^verbatim>\<open>current_stream_state.get("ts", 0)\<close> where it is a number.\<close>

definition tracked_or_0 :: "pydict \<Rightarrow> real" where
  "tracked_or_0 b = (case tracked b of None \<Rightarrow> 0 | Some t \<Rightarrow> t)"

text \<open>
  Every object of \<open>w0\<close> is in \<open>w\<close> at its address with its content: \<open>w\<close> has written
  to none of them.
\<close>

definition untouched :: "world \<Rightarrow> world \<Rightarrow> bool" where
  "untouched w0 w \<longleftrightarrow> prefix (outers w0) (outers w) \<and> prefix (blobs w0) (blobs w)"

text \<open>
  The connector-state map at \<open>cs\<close> and the dictionaries it refers to are not objects of
  \<open>w0\<close>: they were made after it.
\<close>

definition owned :: "world \<Rightarrow> addr \<Rightarrow> world \<Rightarrow> bool" where
  "owned w0 cs w \<longleftrightarrow>
     length (outers w0) \<le> cs \<and> list_all (\<lambda>(k, a). length (blobs w0) \<le> a) (outer_at w cs)"

section \<open>Invariants of a run\<close>

text \<open>
  \<open>checked P tr ms\<close>: every STATE message of \<open>ms\<close> satisfies \<open>P\<close> together with the
  messages emitted before it (\<open>tr\<close>, then the part of \<open>ms\<close> before the message).
\<close>

fun checked :: "(message list \<Rightarrow> message \<Rightarrow> bool) \<Rightarrow> message list \<Rightarrow> message list \<Rightarrow> bool" where
  "checked P tr [] = True"
| "checked P tr (m # ms) = ((is_STATE m \<longrightarrow> P tr m) \<and> checked P (tr @ [m]) ms)"

text \<open>
  What makes \<open>G\<close> an invariant of a run between streams and slices and \<open>I\<close> an invariant
  within the stream \<open>nm\<close>, with \<open>P\<close> holding of every checkpoint: they are kept by the
  steps that \<^verbatim>\<open>_read_incremental\<close> is made of.
\<close>

definition checkpoint_invariant ::
  "addr \<Rightarrow> 'sl Stream \<Rightarrow> string \<Rightarrow> (message list \<Rightarrow> world \<Rightarrow> bool)
     \<Rightarrow> (message list \<Rightarrow> addr \<Rightarrow> world \<Rightarrow> bool) \<Rightarrow> (message list \<Rightarrow> message \<Rightarrow> bool) \<Rightarrow> bool" where
  "checkpoint_invariant cs s nm G I P \<longleftrightarrow>
     (\<forall>tr w st w1. G tr w \<longrightarrow> get_stream_state cs nm w = (st, w1) \<longrightarrow> G tr w1 \<and> I tr st w1) \<and>
     (\<forall>tr st w x. I tr st w \<longrightarrow> I tr st (logger x w)) \<and>
     (\<forall>tr w x. G tr w \<longrightarrow> G tr (logger x w)) \<and>
     (\<forall>tr st w r u st1 w1. I tr st w \<longrightarrow> get_updated_state s (blob_at w st) r = Inr u \<longrightarrow>
         apply_upd u st w = (st1, w1) \<longrightarrow> I (tr @ [RECORD nm r]) st1 w1) \<and>
     (\<forall>tr st w m w1. I tr st w \<longrightarrow> checkpoint_state nm st cs w = (m, w1) \<longrightarrow>
         I (tr @ [m]) st w1 \<and> G (tr @ [m]) w1 \<and> P tr m)"

text \<open>The records among some messages, each with its stream name.\<close>

fun records_of :: "message list \<Rightarrow> (string \<times> pydict) list" where
  "records_of [] = []"
| "records_of (RECORD n r # ms) = (n, r) # records_of ms"
| "records_of (STATE d # ms) = records_of ms"

text \<open>
  The record \<open>r\<close> has a cursor value, the per-stream state \<open>b\<close> tracks one, and the
  record's is less than or equal to the state's.
\<close>

definition le_blob :: "pydict \<Rightarrow> pydict \<Rightarrow> bool" where
  "le_blob r b =
     (case cursor_value r of
        None \<Rightarrow> False
      | Some c \<Rightarrow> (case tracked b of None \<Rightarrow> False | Some t \<Rightarrow> c \<le> t))"

text \<open>The connector-state content \<open>d\<close> has an entry for the stream \<open>n\<close> which is
  such a state for \<open>r\<close>.\<close>

definition covered :: "(string \<times> pydict) list \<Rightarrow> string \<Rightarrow> pydict \<Rightarrow> bool" where
  "covered d n r = (case map_of d n of None \<Rightarrow> False | Some b \<Rightarrow> le_blob r b)"

text \<open>
  The invariants for the bound on the records: all records emitted so far are covered by
  the connector state (between slices), or by the state at hand for the stream being read
  and the connector state for the others (within a slice).
\<close>

definition records_below :: "addr \<Rightarrow> message list \<Rightarrow> world \<Rightarrow> bool" where
  "records_below cs tr w \<longleftrightarrow>
     cs < length (outers w) \<and> (\<forall>(n, r) \<in> set (records_of tr). covered (snapshot w cs) n r)"

definition records_below_in :: "addr \<Rightarrow> string \<Rightarrow> message list \<Rightarrow> addr \<Rightarrow> world \<Rightarrow> bool" where
  "records_below_in cs nm tr st w \<longleftrightarrow>
     cs < length (outers w) \<and>
     (\<forall>(n, r) \<in> set (records_of tr).
        if n = nm then le_blob r (blob_at w st) else covered (snapshot w cs) n r)"

definition state_covers :: "message list \<Rightarrow> message \<Rightarrow> bool" where
  "state_covers tr m =
     (case m of RECORD n r \<Rightarrow> True
      | STATE d \<Rightarrow> (\<forall>(n, r) \<in> set (records_of tr). covered d n r))"

text \<open>
  The content of the last STATE message among some messages, or \<open>d0\<close> when there is
  none.
\<close>

fun last_state :: "(string \<times> pydict) list \<Rightarrow> message list \<Rightarrow> (string \<times> pydict) list" where
  "last_state d0 [] = d0"
| "last_state d0 (RECORD n r # ms) = last_state d0 ms"
| "last_state d0 (STATE d # ms) = last_state d ms"

text \<open>
  The connector-state map at \<open>cs\<close> is an object of the store, its entries refer to
  objects of the store, and no two entries share one.
\<close>

definition sound :: "addr \<Rightarrow> world \<Rightarrow> bool" where
  "sound cs w \<longleftrightarrow>
     cs < length (outers w) \<and> distinct (map snd (outer_at w cs)) \<and>
     list_all (\<lambda>(k, a). a < length (blobs w)) (outer_at w cs)"

text \<open>
  The invariants for the content of the checkpoints: the connector state is what the last
  checkpoint had (between slices), or differs from it in the entry of the stream being read
  at most (within a slice); and what they give for a checkpoint: it is the content of the
  last one with the entry of one configured stream set.
\<close>

definition whole_state :: "(string \<times> pydict) list \<Rightarrow> addr \<Rightarrow> message list \<Rightarrow> world \<Rightarrow> bool" where
  "whole_state d0 cs tr w \<longleftrightarrow> sound cs w \<and> snapshot w cs = last_state d0 tr"

definition whole_state_in ::
  "(string \<times> pydict) list \<Rightarrow> addr \<Rightarrow> string \<Rightarrow> message list \<Rightarrow> addr \<Rightarrow> world \<Rightarrow> bool" where
  "whole_state_in d0 cs nm tr st w \<longleftrightarrow>
     sound cs w \<and> st < length (blobs w) \<and>
     (map_of (outer_at w cs) nm = Some st \<or> st \<notin> snd ` set (outer_at w cs)) \<and>
     (\<forall>b. AList.update nm b (snapshot w cs) = AList.update nm b (last_state d0 tr))"

definition one_entry_set ::
  "(string \<times> pydict) list \<Rightarrow> string set \<Rightarrow> message list \<Rightarrow> message \<Rightarrow> bool" where
  "one_entry_set d0 names tr m =
     (case m of RECORD n r \<Rightarrow> True
      | STATE d \<Rightarrow> (\<exists>n \<in> names. \<exists>b. d = AList.update n b (last_state d0 tr)))"

section \<open>Checkpoint cadence within a slice\<close>

lemma div_step:
  fixes k rc :: int
  assumes "0 < k"
  shows "(rc + 1) div k = rc div k + (if (rc + 1) mod k = 0 then 1 else 0)"
proof -
  define q where "q = rc div k"
  define r where "r = rc mod k"
  have r: "0 \<le> r" "r < k" using assms by (simp_all add: r_def)
  have rc: "rc + 1 = (r + 1) + k * q" by (simp add: q_def r_def)
  have d: "(rc + 1) div k = q + (r + 1) div k"
    unfolding rc using assms by simp
  have m: "(rc + 1) mod k = (r + 1) mod k"
    unfolding rc by simp
  show ?thesis
  proof (cases "r + 1 = k")
    case True
    then show ?thesis using d m assms by (simp add: q_def)
  next
    case False
    with r have "r + 1 < k" by simp
    with r have "(r + 1) div k = 0" "(r + 1) mod k = r + 1" by simp_all
    with d m r show ?thesis by (simp add: q_def)
  qed
qed

lemma checkpoint_due_abs:
  "checkpoint_due (Some k) rc \<longleftrightarrow> k \<noteq> 0 \<and> rc mod \<bar>k\<bar> = 0"
  by (auto simp: checkpoint_due_def abs_if mod_eq_0_iff_dvd)

lemma checkpoint_state_is_STATE: "checkpoint_state nm st cs w = (m, w') \<Longrightarrow> is_STATE m"
  by (auto simp: checkpoint_state_def Let_def)

text \<open>What a record of the loop did when the loop went on to its end.\<close>

lemma records_loop_Cons_ok:
  assumes "records_loop s nm cs (r # rs) rc st w = (ms, None, st', w')"
  shows "\<exists>u st1 w1 cp w2 ms'.
           get_updated_state s (blob_at w st) r = Inr u \<and>
           apply_upd u st w = (st1, w1) \<and>
           (if checkpoint_due (state_checkpoint_interval s) (rc + 1)
            then \<exists>m. checkpoint_state nm st1 cs w1 = (m, w2) \<and> cp = [m]
            else cp = [] \<and> w2 = w1) \<and>
           records_loop s nm cs rs (rc + 1) st1 w2 = (ms', None, st', w') \<and>
           ms = RECORD nm r # cp @ ms'"
  using assms
  by (auto simp: as_airbyte_record_def split: sum.splits prod.splits if_splits)

lemma records_loop_RECORDs:
  "records_loop s nm cs rs rc st w = (ms, None, st', w') \<Longrightarrow>
     filter is_RECORD ms = map (RECORD nm) rs"
proof (induction rs arbitrary: rc st w ms)
  case Nil
  then show ?case by simp
next
  case (Cons r rs)
  from records_loop_Cons_ok [OF Cons.prems]
  obtain u st1 w1 cp w2 ms' where
    cp: "if checkpoint_due (state_checkpoint_interval s) (rc + 1)
         then \<exists>m. checkpoint_state nm st1 cs w1 = (m, w2) \<and> cp = [m]
         else cp = [] \<and> w2 = w1"
    and rest: "records_loop s nm cs rs (rc + 1) st1 w2 = (ms', None, st', w')"
    and ms: "ms = RECORD nm r # cp @ ms'"
    by blast
  from cp have "filter is_RECORD cp = []"
    by (auto simp: checkpoint_state_def Let_def split: if_splits)
  with Cons.IH [OF rest] ms show ?case by simp
qed

lemma records_loop_count_STATE:
  assumes "records_loop s nm cs rs rc st w = (ms, None, st', w')"
    and "\<And>i. checkpoint_due (state_checkpoint_interval s) i \<longleftrightarrow> i mod k = 0" and "0 < k"
  shows "int (length (filter is_STATE ms)) = (rc + int (length rs)) div k - rc div k"
  using assms(1)
proof (induction rs arbitrary: rc st w ms)
  case Nil
  then show ?case by simp
next
  case (Cons r rs)
  from records_loop_Cons_ok [OF Cons.prems]
  obtain u st1 w1 cp w2 ms' where
    cp: "if checkpoint_due (state_checkpoint_interval s) (rc + 1)
         then \<exists>m. checkpoint_state nm st1 cs w1 = (m, w2) \<and> cp = [m]
         else cp = [] \<and> w2 = w1"
    and rest: "records_loop s nm cs rs (rc + 1) st1 w2 = (ms', None, st', w')"
    and ms: "ms = RECORD nm r # cp @ ms'"
    by blast
  from cp assms(2) [of "rc + 1"]
  have n: "int (length (filter is_STATE cp)) = (if (rc + 1) mod k = 0 then 1 else 0)"
    by (auto split: if_splits dest: checkpoint_state_is_STATE)
  have l: "rc + 1 + int (length rs) = rc + int (length (r # rs))" by simp
  have "int (length (filter is_STATE ms))
          = int (length (filter is_STATE cp)) + int (length (filter is_STATE ms'))"
    using ms by simp
  also have "\<dots> = (if (rc + 1) mod k = 0 then 1 else 0)
                     + ((rc + 1 + int (length rs)) div k - (rc + 1) div k)"
    using n Cons.IH [OF rest] by simp
  also have "\<dots> = (rc + int (length (r # rs))) div k - rc div k"
    unfolding l div_step [OF assms(3), of rc] by (simp split: if_splits)
  finally show ?case .
qed

lemma records_loop_never_due:
  assumes "records_loop s nm cs rs rc st w = (ms, None, st', w')"
    and "\<And>i. \<not> checkpoint_due (state_checkpoint_interval s) i"
  shows "filter is_STATE ms = []"
  using assms(1)
proof (induction rs arbitrary: rc st w ms)
  case Nil
  then show ?case by simp
next
  case (Cons r rs)
  from records_loop_Cons_ok [OF Cons.prems]
  obtain u st1 w1 cp w2 ms' where
    cp: "if checkpoint_due (state_checkpoint_interval s) (rc + 1)
         then \<exists>m. checkpoint_state nm st1 cs w1 = (m, w2) \<and> cp = [m]
         else cp = [] \<and> w2 = w1"
    and rest: "records_loop s nm cs rs (rc + 1) st1 w2 = (ms', None, st', w')"
    and ms: "ms = RECORD nm r # cp @ ms'"
    by blast
  from cp assms(2) have "cp = []" by simp
  with Cons.IH [OF rest] ms show ?case by simp
qed

text \<open>What a slice did when it went on to its end.\<close>

lemma read_slice_ok:
  assumes "read_slice s c cs slice st w = (ms, None, st', w')"
  shows "\<exists>inner w1 m.
           records_loop s (configured_name c) cs
             (items (read_records s incremental slice (Some (blob_at w st))
                       (or_None (cursor_field c))))
             0 st w = (inner, None, st', w1) \<and>
           raises (read_records s incremental slice (Some (blob_at w st))
                     (or_None (cursor_field c))) = None \<and>
           checkpoint_state (configured_name c) st' cs w1 = (m, w') \<and>
           ms = inner @ [m]"
  using assms
  by (auto simp: read_slice_def Let_def split: prod.splits option.splits)

text \<open>
  Claim C3. A slice of an incremental read that yields \<open>n\<close> records and ends without an
  exception emits its \<open>n\<close> RECORD messages interleaved with intermediate STATE messages,
  followed by one trailing STATE message that is always there. With a positive checkpoint
  interval \<open>k\<close> there are exactly \<open>n div k\<close> intermediate STATE messages (the record
  counter starts at zero in every slice); with no interval there is none. (An interval of
  zero behaves as no interval, and a negative one as its absolute value.)
\<close>

theorem checkpoint_cadence:
  assumes "read_slice s c cs slice st w = (ms, None, st', w')"
    and "n = length (items (read_records s incremental slice (Some (blob_at w st))
                              (or_None (cursor_field c))))"
  shows "\<exists>inner m. ms = inner @ [m] \<and> is_STATE m \<and>
           length (filter is_RECORD inner) = n \<and>
           int (length (filter is_STATE inner)) =
             (case state_checkpoint_interval s of
                None \<Rightarrow> 0
              | Some k \<Rightarrow> if 0 < k then int n div k else if k = 0 then 0 else int n div \<bar>k\<bar>)"
proof -
  let ?rs = "items (read_records s incremental slice (Some (blob_at w st))
                      (or_None (cursor_field c)))"
  from read_slice_ok [OF assms(1)] obtain inner w1 m where
    loop: "records_loop s (configured_name c) cs ?rs 0 st w = (inner, None, st', w1)"
    and cp: "checkpoint_state (configured_name c) st' cs w1 = (m, w')"
    and ms: "ms = inner @ [m]"
    by blast
  have a: "length (filter is_RECORD inner) = n"
    using records_loop_RECORDs [OF loop] assms(2) by simp
  have b: "int (length (filter is_STATE inner)) = int n div \<bar>k\<bar>"
    if "state_checkpoint_interval s = Some k" "k \<noteq> 0" for k
  proof -
    have "\<And>i. checkpoint_due (state_checkpoint_interval s) i \<longleftrightarrow> i mod \<bar>k\<bar> = 0"
      using that by (simp add: checkpoint_due_abs)
    moreover have "0 < \<bar>k\<bar>" using that by simp
    ultimately show ?thesis
      using records_loop_count_STATE [OF loop, of "\<bar>k\<bar>"] assms(2) by simp
  qed
  have c: "filter is_STATE inner = []"
    if "state_checkpoint_interval s = None \<or> state_checkpoint_interval s = Some 0"
  proof -
    have "\<And>i. \<not> checkpoint_due (state_checkpoint_interval s) i"
      using that by (auto simp: checkpoint_due_def)
    then show ?thesis using records_loop_never_due [OF loop] by simp
  qed
  have d: "is_STATE m" using checkpoint_state_is_STATE [OF cp] .
  have e: "int (length (filter is_STATE inner)) =
             (case state_checkpoint_interval s of
                None \<Rightarrow> 0
              | Some k \<Rightarrow> if 0 < k then int n div k else if k = 0 then 0 else int n div \<bar>k\<bar>)"
  proof (cases "state_checkpoint_interval s")
    case None
    then show ?thesis using c by simp
  next
    case (Some k)
    then show ?thesis using b [of k] c by (cases "k = 0") auto
  qed
  show ?thesis
    using ms a d e by blast
qed

theorem checkpoint_cadence_witness:
  "read_slice example_stream example_configured 0 () 0 example_world =
     ([RECORD ''messages'' [(''ts'', Number 1)],
       RECORD ''messages'' [(''ts'', Number 2)],
       STATE [(''messages'', [(''ts'', Number 2)])],
       RECORD ''messages'' [(''ts'', Number 3)],
       RECORD ''messages'' [(''ts'', Number 4)],
       STATE [(''messages'', [(''ts'', Number 4)])],
       RECORD ''messages'' [(''ts'', Number 5)],
       STATE [(''messages'', [(''ts'', Number 5)])]],
      None, 1,
      \<lparr>outers = [[(''messages'', 1)]], blobs = [[], [(''ts'', Number 5)]],
       logs = [Info_setting_state ''messages'' [(''ts'', Number 2)],
               Info_setting_state ''messages'' [(''ts'', Number 4)],
               Info_setting_state ''messages'' [(''ts'', Number 5)]]\<rparr>)
   \<and> (\<exists>inner m.
         [RECORD ''messages'' [(''ts'', Number 1)],
          RECORD ''messages'' [(''ts'', Number 2)],
          STATE [(''messages'', [(''ts'', Number 2)])],
          RECORD ''messages'' [(''ts'', Number 3)],
          RECORD ''messages'' [(''ts'', Number 4)],
          STATE [(''messages'', [(''ts'', Number 4)])],
          RECORD ''messages'' [(''ts'', Number 5)],
          STATE [(''messages'', [(''ts'', Number 5)])]] = inner @ [m]
         \<and> is_STATE m \<and> length (filter is_RECORD inner) = 5
         \<and> int (length (filter is_STATE inner)) = 2)"
proof -
  have run: "read_slice example_stream example_configured 0 () 0 example_world =
     ([RECORD ''messages'' [(''ts'', Number 1)],
       RECORD ''messages'' [(''ts'', Number 2)],
       STATE [(''messages'', [(''ts'', Number 2)])],
       RECORD ''messages'' [(''ts'', Number 3)],
       RECORD ''messages'' [(''ts'', Number 4)],
       STATE [(''messages'', [(''ts'', Number 4)])],
       RECORD ''messages'' [(''ts'', Number 5)],
       STATE [(''messages'', [(''ts'', Number 5)])]],
      None, 1,
      \<lparr>outers = [[(''messages'', 1)]], blobs = [[], [(''ts'', Number 5)]],
       logs = [Info_setting_state ''messages'' [(''ts'', Number 2)],
               Info_setting_state ''messages'' [(''ts'', Number 4)],
               Info_setting_state ''messages'' [(''ts'', Number 5)]]\<rparr>)"
    by code_simp
  have n: "5 = length (items (read_records example_stream incremental ()
                                (Some (blob_at example_world 0))
                                (or_None (cursor_field example_configured))))"
    by code_simp
  have k: "state_checkpoint_interval example_stream = Some 2"
    by (simp add: example_stream_def)
  show ?thesis
    using run checkpoint_cadence [OF run n] by (simp add: k)
qed

section \<open>The full-refresh path\<close>

lemma full_refresh_slices_only_records:
  "list_all is_RECORD (fst (full_refresh_slices s c sls))"
  by (induction sls)
     (auto simp: Let_def as_airbyte_record_def list_all_iff split: option.splits prod.splits)

lemma read_full_refresh_only_records:
  "list_all is_RECORD (fst (read_full_refresh s c))"
  using full_refresh_slices_only_records
          [of s c "items (stream_slices s full_refresh (cursor_field c) None)"]
  by (auto simp: read_full_refresh_def Let_def split: prod.splits option.splits)

lemma only_records_no_state: "list_all is_RECORD ms \<Longrightarrow> filter is_STATE ms = []"
  by (induction ms) (auto elim: is_RECORD.elims)

text \<open>
  Claim C7. A stream that the orchestrator reads on the full-refresh path (the configured
  mode is not incremental, or the stream does not support it) emits RECORD messages only
  and no STATE message, whatever slices and records the stream produces and also when it
  raises; the connector state stays as it was.
\<close>

theorem full_refresh_emits_no_STATE:
  assumes "\<not> (sync_mode c = incremental \<and> supports_incremental s)"
    and "read_stream s c cs w = (ms, e, w')"
  shows "list_all is_RECORD ms \<and> filter is_STATE ms = []
           \<and> outers w' = outers w \<and> blobs w' = blobs w"
proof -
  obtain ms0 e0 where r: "read_full_refresh s c = (ms0, e0)"
    by (cases "read_full_refresh s c")
  from assms r have "ms = ms0"
    by (auto simp: read_stream_def use_incremental_def Let_def split: option.splits)
  moreover have "list_all is_RECORD ms0"
    using read_full_refresh_only_records [of s c] r by simp
  moreover from assms r have "outers w' = outers w \<and> blobs w' = blobs w"
    by (auto simp: read_stream_def use_incremental_def Let_def logger_def split: option.splits)
  ultimately show ?thesis by (simp add: only_records_no_state)
qed

theorem full_refresh_emits_no_STATE_witness:
  "\<not> (sync_mode example_users_configured = incremental \<and> supports_incremental example_users)
   \<and> read_stream example_users example_users_configured 0 example_world =
       ([RECORD ''users'' [(''id'', Number 1)], RECORD ''users'' [(''id'', Number 2)]], None,
        \<lparr>outers = [[]], blobs = [[]],
         logs = [Info_syncing_stream ''users'', Info_read_records 2 ''users'']\<rparr>)
   \<and> list_all is_RECORD [RECORD ''users'' [(''id'', Number 1)], RECORD ''users'' [(''id'', Number 2)]]
   \<and> filter is_STATE [RECORD ''users'' [(''id'', Number 1)], RECORD ''users'' [(''id'', Number 2)]] = []
   \<and> outers \<lparr>outers = [[]], blobs = [[]],
         logs = [Info_syncing_stream ''users'', Info_read_records 2 ''users'']\<rparr> = outers example_world"
proof -
  have h: "\<not> (sync_mode example_users_configured = incremental
               \<and> supports_incremental example_users)"
    by (simp add: example_users_def)
  have run: "read_stream example_users example_users_configured 0 example_world =
       ([RECORD ''users'' [(''id'', Number 1)], RECORD ''users'' [(''id'', Number 2)]], None,
        \<lparr>outers = [[]], blobs = [[]],
         logs = [Info_syncing_stream ''users'', Info_read_records 2 ''users'']\<rparr>)"
    by code_simp
  show ?thesis
    using h run full_refresh_emits_no_STATE [OF h run] by simp
qed

section \<open>Facts about the store\<close>

lemma blobs_logger [simp]: "blobs (logger e w) = blobs w"
  and outers_logger [simp]: "outers (logger e w) = outers w"
  by (simp_all add: logger_def)

lemma blob_at_logger [simp]: "blob_at (logger e w) a = blob_at w a"
  and outer_at_logger [simp]: "outer_at (logger e w) a = outer_at w a"
  by (simp_all add: blob_at_def outer_at_def)

lemma blobs_outer_setitem [simp]: "blobs (outer_setitem a k v w) = blobs w"
  by (simp add: outer_setitem_def)

lemma blob_at_outer_setitem [simp]: "blob_at (outer_setitem a k v w) b = blob_at w b"
  by (simp add: blob_at_def)

lemma checkpoint_state_blobs: "checkpoint_state nm st cs w = (m, w') \<Longrightarrow> blobs w' = blobs w"
  by (auto simp: checkpoint_state_def Let_def)

lemma checkpoint_state_blob_at: "checkpoint_state nm st cs w = (m, w') \<Longrightarrow> blob_at w' a = blob_at w a"
  by (auto simp: checkpoint_state_def Let_def)


section \<open>The tracked cursor value at the end of a slice\<close>

text \<open>What the Slack update does when it does not raise.\<close>

lemma slack_update_ok:
  assumes "IncrementalMessageStream_get_updated_state b r = Inr u"
  shows "\<exists>x. cursor_value r = Some x \<and>
             u = (if b \<noteq> [] then InPlace else Fresh)
                   (AList.update ''ts'' (Number (max x (tracked_or_0 b))) b)"
proof -
  from assms obtain v x m where v: "map_of r ''ts'' = Some v" and x: "py_float v = Inr x"
    and m: "py_max x (case map_of b ''ts'' of None \<Rightarrow> Number 0 | Some t \<Rightarrow> t) = Inr m"
    and u: "u = (if b \<noteq> [] then InPlace else Fresh) (AList.update ''ts'' m b)"
    by (auto simp: IncrementalMessageStream_get_updated_state_def split: option.splits sum.splits)
  have "m = Number (max x (tracked_or_0 b))"
  proof (cases "map_of b ''ts''")
    case None
    with m show ?thesis by (auto simp: tracked_or_0_def tracked_def max_def)
  next
    case (Some t)
    with m show ?thesis by (cases t) (auto simp: tracked_or_0_def tracked_def max_def)
  qed
  with v x u show ?thesis by (simp add: cursor_value_def)
qed

lemma tracked_update [simp]: "tracked (AList.update ''ts'' (Number t) b) = Some t"
  by (simp add: tracked_def update_conv')

lemma apply_slack_update:
  assumes "apply_upd ((if blob_at w st \<noteq> [] then InPlace else Fresh) d) st w = (st1, w1)"
  shows "blob_at w1 st1 = d"
proof (cases "blob_at w st = []")
  case True
  with assms show ?thesis by (auto simp: alloc_blob_def blob_at_def)
next
  case False
  then have "st < length (blobs w)" by (auto simp: blob_at_def split: if_splits)
  with False assms show ?thesis by (auto simp: blob_store_def blob_at_def)
qed

lemma records_loop_tracked:
  assumes "get_updated_state s = IncrementalMessageStream_get_updated_state"
    and "records_loop s nm cs rs rc st w = (ms, None, st', w')"
  shows "\<exists>vs. map cursor_value rs = map Some vs \<and>
           tracked_or_0 (blob_at w' st') = fold max vs (tracked_or_0 (blob_at w st)) \<and>
           (rs \<noteq> [] \<longrightarrow> tracked (blob_at w' st') = Some (tracked_or_0 (blob_at w' st')))"
  using assms(2)
proof (induction rs arbitrary: rc st w ms)
  case Nil
  then show ?case by simp
next
  case (Cons r rs)
  from records_loop_Cons_ok [OF Cons.prems]
  obtain u st1 w1 cp w2 ms' where
    u: "get_updated_state s (blob_at w st) r = Inr u"
    and ap: "apply_upd u st w = (st1, w1)"
    and cp: "if checkpoint_due (state_checkpoint_interval s) (rc + 1)
         then \<exists>m. checkpoint_state nm st1 cs w1 = (m, w2) \<and> cp = [m]
         else cp = [] \<and> w2 = w1"
    and rest: "records_loop s nm cs rs (rc + 1) st1 w2 = (ms', None, st', w')"
    by blast
  from slack_update_ok [of "blob_at w st" r u] u assms(1)
  obtain x where x: "cursor_value r = Some x"
    and u': "u = (if blob_at w st \<noteq> [] then InPlace else Fresh)
                  (AList.update ''ts'' (Number (max x (tracked_or_0 (blob_at w st)))) (blob_at w st))"
    by auto
  from ap u' have b1: "blob_at w1 st1 =
      AList.update ''ts'' (Number (max x (tracked_or_0 (blob_at w st)))) (blob_at w st)"
    using apply_slack_update by blast
  from cp have b2: "blob_at w2 st1 = blob_at w1 st1"
    by (auto split: if_splits simp: checkpoint_state_blob_at)
  have t1: "tracked_or_0 (blob_at w2 st1) = max x (tracked_or_0 (blob_at w st))"
    and t1': "tracked (blob_at w2 st1) = Some (max x (tracked_or_0 (blob_at w st)))"
    using b1 b2 by (simp_all add: tracked_or_0_def)
  from Cons.IH [OF rest] obtain vs where
    vs: "map cursor_value rs = map Some vs"
    and f: "tracked_or_0 (blob_at w' st') = fold max vs (tracked_or_0 (blob_at w2 st1))"
    and g: "rs \<noteq> [] \<longrightarrow> tracked (blob_at w' st') = Some (tracked_or_0 (blob_at w' st'))"
    by blast
  have "map cursor_value (r # rs) = map Some (x # vs)" using x vs by simp
  moreover have "tracked_or_0 (blob_at w' st') = fold max (x # vs) (tracked_or_0 (blob_at w st))"
    using f t1 by simp
  moreover have "tracked (blob_at w' st') = Some (tracked_or_0 (blob_at w' st'))"
  proof (cases "rs = []")
    case True
    with rest have "w' = w2" "st' = st1" by simp_all
    with t1 t1' show ?thesis by simp
  next
    case False
    with g show ?thesis by simp
  qed
  ultimately show ?case by blast
qed


text \<open>
  Claim C5, as amended. For a stream with the Slack streams' state update, a slice that
  yields the records \<open>rs\<close> (at least one) and ends without an exception: every record
  has a cursor value, and the state at the end of the slice tracks the greatest of these
  values and of the value \<open>t0\<close> tracked when the slice began (0 when none was). This is a
  function of the set of the values, so the order of the records does not matter.
\<close>

theorem final_state_is_max:
  assumes "get_updated_state s = IncrementalMessageStream_get_updated_state"
    and "read_slice s c cs slice st w = (ms, None, st', w')"
    and "rs = items (read_records s incremental slice (Some (blob_at w st))
                       (or_None (cursor_field c)))"
    and "rs \<noteq> []"
  shows "\<exists>vs. map cursor_value rs = map Some vs \<and>
           tracked (blob_at w' st') = Some (Max (set (tracked_or_0 (blob_at w st) # vs)))"
proof -
  from read_slice_ok [OF assms(2)] assms(3) obtain inner w1 m where
    loop: "records_loop s (configured_name c) cs rs 0 st w = (inner, None, st', w1)"
    and cp: "checkpoint_state (configured_name c) st' cs w1 = (m, w')"
    by blast
  from records_loop_tracked [OF assms(1) loop] assms(4) obtain vs where
    vs: "map cursor_value rs = map Some vs"
    and f: "tracked_or_0 (blob_at w1 st') = fold max vs (tracked_or_0 (blob_at w st))"
    and g: "tracked (blob_at w1 st') = Some (tracked_or_0 (blob_at w1 st'))"
    by blast
  have "blob_at w' st' = blob_at w1 st'" using checkpoint_state_blob_at [OF cp] .
  with f g have "tracked (blob_at w' st') = Some (fold max vs (tracked_or_0 (blob_at w st)))"
    by simp
  also have "fold max vs (tracked_or_0 (blob_at w st)) = Max (set (tracked_or_0 (blob_at w st) # vs))"
    by (rule Max.set_eq_fold [symmetric])
  finally show ?thesis using vs by blast
qed


theorem final_state_is_max_witness:
  "get_updated_state example_stream = IncrementalMessageStream_get_updated_state
   \<and> read_slice example_stream example_configured 0 () 0 (seeded_world 3) =
       ([RECORD ''messages'' [(''ts'', Number 1)],
         RECORD ''messages'' [(''ts'', Number 2)],
         STATE [(''messages'', [(''ts'', Number 3)])],
         RECORD ''messages'' [(''ts'', Number 3)],
         RECORD ''messages'' [(''ts'', Number 4)],
         STATE [(''messages'', [(''ts'', Number 4)])],
         RECORD ''messages'' [(''ts'', Number 5)],
         STATE [(''messages'', [(''ts'', Number 5)])]],
        None, 0,
        \<lparr>outers = [[(''messages'', 0)]], blobs = [[(''ts'', Number 5)]],
         logs = [Info_setting_state ''messages'' [(''ts'', Number 3)],
                 Info_setting_state ''messages'' [(''ts'', Number 4)],
                 Info_setting_state ''messages'' [(''ts'', Number 5)]]\<rparr>)
   \<and> (\<exists>vs. map cursor_value (map (\<lambda>t. [(''ts'', Number t)]) [1, 2, 3, 4, 5]) = map Some vs
          \<and> tracked [(''ts'', Number 5)] = Some (Max (set (3 # vs))))"
proof -
  have g: "get_updated_state example_stream = IncrementalMessageStream_get_updated_state"
    by (simp add: example_stream_def)
  have run: "read_slice example_stream example_configured 0 () 0 (seeded_world 3) =
       ([RECORD ''messages'' [(''ts'', Number 1)],
         RECORD ''messages'' [(''ts'', Number 2)],
         STATE [(''messages'', [(''ts'', Number 3)])],
         RECORD ''messages'' [(''ts'', Number 3)],
         RECORD ''messages'' [(''ts'', Number 4)],
         STATE [(''messages'', [(''ts'', Number 4)])],
         RECORD ''messages'' [(''ts'', Number 5)],
         STATE [(''messages'', [(''ts'', Number 5)])]],
        None, 0,
        \<lparr>outers = [[(''messages'', 0)]], blobs = [[(''ts'', Number 5)]],
         logs = [Info_setting_state ''messages'' [(''ts'', Number 3)],
                 Info_setting_state ''messages'' [(''ts'', Number 4)],
                 Info_setting_state ''messages'' [(''ts'', Number 5)]]\<rparr>)"
    by code_simp
  have rs: "map (\<lambda>t. [(''ts'', Number t)]) [1, 2, 3, 4, 5] =
      items (read_records example_stream incremental () (Some (blob_at (seeded_world 3) 0))
               (or_None (cursor_field example_configured)))"
    by (simp add: example_stream_def)
  have ne: "map (\<lambda>t. [(''ts'', Number t)]) [1, 2, 3, 4, 5 :: real] \<noteq> []"
    by simp
  have b: "blob_at \<lparr>outers = [[(''messages'', 0)]], blobs = [[(''ts'', Number 5)]],
         logs = [Info_setting_state ''messages'' [(''ts'', Number 3)],
                 Info_setting_state ''messages'' [(''ts'', Number 4)],
                 Info_setting_state ''messages'' [(''ts'', Number 5)]]\<rparr> 0 = [(''ts'', Number 5)]"
    by (simp add: blob_at_def)
  have t0: "tracked_or_0 (blob_at (seeded_world 3) 0) = 3"
    by (simp add: tracked_or_0_def tracked_def blob_at_def seeded_world_def)
  show ?thesis
    using g run final_state_is_max [OF g run rs ne] unfolding b t0 by simp
qed

text \<open>
  Claim C5 as it is written fails when the state already tracks a value above every
  record of the slice: with 100 tracked, the records 1 to 5 leave 100, not 5.
\<close>

theorem final_state_counterexample:
  "get_updated_state example_stream = IncrementalMessageStream_get_updated_state
   \<and> map cursor_value
         (items (read_records example_stream incremental ()
                   (Some (blob_at (seeded_world 100) 0))
                   (or_None (cursor_field example_configured))))
       = map Some [1, 2, 3, 4, 5]
   \<and> read_slice example_stream example_configured 0 () 0 (seeded_world 100) =
       ([RECORD ''messages'' [(''ts'', Number 1)],
         RECORD ''messages'' [(''ts'', Number 2)],
         STATE [(''messages'', [(''ts'', Number 100)])],
         RECORD ''messages'' [(''ts'', Number 3)],
         RECORD ''messages'' [(''ts'', Number 4)],
         STATE [(''messages'', [(''ts'', Number 100)])],
         RECORD ''messages'' [(''ts'', Number 5)],
         STATE [(''messages'', [(''ts'', Number 100)])]],
        None, 0,
        \<lparr>outers = [[(''messages'', 0)]], blobs = [[(''ts'', Number 100)]],
         logs = [Info_setting_state ''messages'' [(''ts'', Number 100)],
                 Info_setting_state ''messages'' [(''ts'', Number 100)],
                 Info_setting_state ''messages'' [(''ts'', Number 100)]]\<rparr>)
   \<and> tracked [(''ts'', Number 100)] = Some 100
   \<and> tracked [(''ts'', Number 100)] \<noteq> Some (Max (set [1, 2, 3, 4, 5]))"
proof -
  have a: "get_updated_state example_stream = IncrementalMessageStream_get_updated_state"
    by (simp add: example_stream_def)
  have b: "map cursor_value
         (items (read_records example_stream incremental ()
                   (Some (blob_at (seeded_world 100) 0))
                   (or_None (cursor_field example_configured))))
       = map Some [1, 2, 3, 4, 5]"
    by (simp add: example_stream_def cursor_value_def)
  have c: "read_slice example_stream example_configured 0 () 0 (seeded_world 100) =
       ([RECORD ''messages'' [(''ts'', Number 1)],
         RECORD ''messages'' [(''ts'', Number 2)],
         STATE [(''messages'', [(''ts'', Number 100)])],
         RECORD ''messages'' [(''ts'', Number 3)],
         RECORD ''messages'' [(''ts'', Number 4)],
         STATE [(''messages'', [(''ts'', Number 100)])],
         RECORD ''messages'' [(''ts'', Number 5)],
         STATE [(''messages'', [(''ts'', Number 100)])]],
        None, 0,
        \<lparr>outers = [[(''messages'', 0)]], blobs = [[(''ts'', Number 100)]],
         logs = [Info_setting_state ''messages'' [(''ts'', Number 100)],
                 Info_setting_state ''messages'' [(''ts'', Number 100)],
                 Info_setting_state ''messages'' [(''ts'', Number 100)]]\<rparr>)"
    by code_simp
  have d: "tracked [(''ts'', Number 100)] = Some 100"
    by (simp add: tracked_def)
  have e: "tracked [(''ts'', Number 100)] \<noteq> Some (Max (set [1, 2, 3, 4, 5]))"
    by (simp add: tracked_def)
  show ?thesis using a b c d e by blast
qed

section \<open>The choice between the two paths\<close>

text \<open>
  Claim C8. What \<^verbatim>\<open>_read_stream\<close> yields, raises and does to the connector state is
  what \<^verbatim>\<open>_read_incremental\<close> yields, raises and does when the configured sync mode is
  incremental and the stream supports incremental reads, and in every other case what
  \<^verbatim>\<open>_read_full_refresh\<close> yields and raises, with the connector state as it was.
\<close>

theorem read_stream_path:
  assumes "read_stream s c cs w = (ms, e, w')"
  shows "if sync_mode c = incremental \<and> supports_incremental s
         then \<exists>w2. read_incremental s c cs (logger (Info_syncing_stream (configured_name c)) w)
                      = (ms, e, w2) \<and> outers w' = outers w2 \<and> blobs w' = blobs w2
         else read_full_refresh s c = (ms, e) \<and> outers w' = outers w \<and> blobs w' = blobs w"
  using assms
  by (auto simp: read_stream_def use_incremental_def Let_def split: option.splits prod.splits if_splits)


theorem read_stream_path_witness:
  "read_stream example_stream example_configured 0 example_world =
     ([RECORD ''messages'' [(''ts'', Number 1)],
       RECORD ''messages'' [(''ts'', Number 2)],
       STATE [(''messages'', [(''ts'', Number 2)])],
       RECORD ''messages'' [(''ts'', Number 3)],
       RECORD ''messages'' [(''ts'', Number 4)],
       STATE [(''messages'', [(''ts'', Number 4)])],
       RECORD ''messages'' [(''ts'', Number 5)],
       STATE [(''messages'', [(''ts'', Number 5)])]],
      None,
      \<lparr>outers = [[(''messages'', 2)]], blobs = [[], [], [(''ts'', Number 5)]],
       logs = [Info_syncing_stream ''messages'',
               Info_setting_state ''messages'' [(''ts'', Number 2)],
               Info_setting_state ''messages'' [(''ts'', Number 4)],
               Info_setting_state ''messages'' [(''ts'', Number 5)],
               Info_read_records 5 ''messages'']\<rparr>)
   \<and> (\<exists>w2. read_incremental example_stream example_configured 0
               (logger (Info_syncing_stream ''messages'') example_world) =
             ([RECORD ''messages'' [(''ts'', Number 1)],
               RECORD ''messages'' [(''ts'', Number 2)],
               STATE [(''messages'', [(''ts'', Number 2)])],
               RECORD ''messages'' [(''ts'', Number 3)],
               RECORD ''messages'' [(''ts'', Number 4)],
               STATE [(''messages'', [(''ts'', Number 4)])],
               RECORD ''messages'' [(''ts'', Number 5)],
               STATE [(''messages'', [(''ts'', Number 5)])]],
              None, w2))
   \<and> read_stream example_users example_users_configured 0 example_world =
       ([RECORD ''users'' [(''id'', Number 1)], RECORD ''users'' [(''id'', Number 2)]], None,
        \<lparr>outers = [[]], blobs = [[]],
         logs = [Info_syncing_stream ''users'', Info_read_records 2 ''users'']\<rparr>)
   \<and> read_full_refresh example_users example_users_configured =
       ([RECORD ''users'' [(''id'', Number 1)], RECORD ''users'' [(''id'', Number 2)]], None)"
proof -
  have run1: "read_stream example_stream example_configured 0 example_world =
     ([RECORD ''messages'' [(''ts'', Number 1)],
       RECORD ''messages'' [(''ts'', Number 2)],
       STATE [(''messages'', [(''ts'', Number 2)])],
       RECORD ''messages'' [(''ts'', Number 3)],
       RECORD ''messages'' [(''ts'', Number 4)],
       STATE [(''messages'', [(''ts'', Number 4)])],
       RECORD ''messages'' [(''ts'', Number 5)],
       STATE [(''messages'', [(''ts'', Number 5)])]],
      None,
      \<lparr>outers = [[(''messages'', 2)]], blobs = [[], [], [(''ts'', Number 5)]],
       logs = [Info_syncing_stream ''messages'',
               Info_setting_state ''messages'' [(''ts'', Number 2)],
               Info_setting_state ''messages'' [(''ts'', Number 4)],
               Info_setting_state ''messages'' [(''ts'', Number 5)],
               Info_read_records 5 ''messages'']\<rparr>)"
    by code_simp
  have run2: "read_stream example_users example_users_configured 0 example_world =
       ([RECORD ''users'' [(''id'', Number 1)], RECORD ''users'' [(''id'', Number 2)]], None,
        \<lparr>outers = [[]], blobs = [[]],
         logs = [Info_syncing_stream ''users'', Info_read_records 2 ''users'']\<rparr>)"
    by code_simp
  have c1: "sync_mode example_configured = incremental \<and> supports_incremental example_stream"
    by (simp add: example_configured_def example_stream_def)
  have c2: "\<not> (sync_mode example_users_configured = incremental
                \<and> supports_incremental example_users)"
    by (simp add: example_users_def)
  have n: "configured_name example_configured = ''messages''"
    by (simp add: example_configured_def)
  from read_stream_path [OF run1] c1 n
  have p1: "\<exists>w2. read_incremental example_stream example_configured 0
               (logger (Info_syncing_stream ''messages'') example_world) =
             ([RECORD ''messages'' [(''ts'', Number 1)],
               RECORD ''messages'' [(''ts'', Number 2)],
               STATE [(''messages'', [(''ts'', Number 2)])],
               RECORD ''messages'' [(''ts'', Number 3)],
               RECORD ''messages'' [(''ts'', Number 4)],
               STATE [(''messages'', [(''ts'', Number 4)])],
               RECORD ''messages'' [(''ts'', Number 5)],
               STATE [(''messages'', [(''ts'', Number 5)])]],
              None, w2)"
    by auto
  from read_stream_path [OF run2] c2
  have p2: "read_full_refresh example_users example_users_configured =
       ([RECORD ''users'' [(''id'', Number 1)], RECORD ''users'' [(''id'', Number 2)]], None)"
    by simp
  show ?thesis using run1 run2 p1 p2 by blast
qed

section \<open>The caller's state is not written to\<close>

lemma prefix_list_update:
  "prefix xs ys \<Longrightarrow> length xs \<le> a \<Longrightarrow> prefix xs (ys[a := d])"
  by (auto simp: prefix_def list_update_append)

lemma prefix_snoc: "prefix xs ys \<Longrightarrow> prefix xs (ys @ [d])"
  by (auto simp: prefix_def)

lemma untouched_refl [simp]: "untouched w w"
  by (simp add: untouched_def)

lemma untouched_logger [simp]: "untouched w0 (logger e w) = untouched w0 w"
  by (simp add: untouched_def)

lemma owned_logger [simp]: "owned w0 cs (logger e w) = owned w0 cs w"
  by (simp add: owned_def)

lemma untouched_alloc_blob: "untouched w0 w \<Longrightarrow> alloc_blob d w = (a, w') \<Longrightarrow>
   untouched w0 w' \<and> length (blobs w0) \<le> a \<and> outers w' = outers w"
  by (auto simp: untouched_def alloc_blob_def prefix_snoc dest: prefix_length_le)

lemma untouched_blob_store: "untouched w0 w \<Longrightarrow> length (blobs w0) \<le> a \<Longrightarrow>
   untouched w0 (blob_store a d w)"
  by (auto simp: untouched_def blob_store_def prefix_list_update)

lemma outers_blob_store [simp]: "outers (blob_store a d w) = outers w"
  by (simp add: blob_store_def)

lemma outer_at_blob_store [simp]: "outer_at (blob_store a d w) cs = outer_at w cs"
  by (simp add: outer_at_def)

lemma list_all_update:
  "list_all (\<lambda>(k, a). P a) xs \<Longrightarrow> P v \<Longrightarrow> list_all (\<lambda>(k, a). P a) (AList.update k0 v xs)"
  by (induction xs) auto

lemma outer_at_setitem_same:
  "outer_at (outer_setitem cs k v w) cs = (if cs < length (outers w) then AList.update k v (outer_at w cs) else [])"
  by (simp add: outer_at_def outer_setitem_def)

lemma checkpoint_state_frame:
  assumes "untouched w0 w" "owned w0 cs w" "length (blobs w0) \<le> st"
    and "checkpoint_state nm st cs w = (m, w')"
  shows "untouched w0 w' \<and> owned w0 cs w'"
proof -
  from assms(4) have w': "w' = outer_setitem cs nm st (logger (Info_setting_state nm (blob_at w st)) w)"
    by (simp add: checkpoint_state_def Let_def)
  have "untouched w0 w'"
    using assms(1,2) unfolding w'
    by (auto simp: untouched_def owned_def outer_setitem_def prefix_list_update)
  moreover have "owned w0 cs w'"
    using assms(2,3) unfolding w'
    by (auto simp: owned_def outer_at_setitem_same list_all_update)
  ultimately show ?thesis by simp
qed

lemma apply_upd_frame:
  assumes "untouched w0 w" "owned w0 cs w" "length (blobs w0) \<le> st"
    and "apply_upd u st w = (st1, w1)"
  shows "untouched w0 w1 \<and> owned w0 cs w1 \<and> length (blobs w0) \<le> st1"
proof (cases u)
  case (InPlace d)
  with assms show ?thesis by (auto simp: untouched_blob_store owned_def)
next
  case (Fresh d)
  with assms untouched_alloc_blob [of w0 w d st1 w1] show ?thesis
    by (auto simp: owned_def outer_at_def)
qed

lemma records_loop_frame:
  assumes "records_loop s nm cs rs rc st w = (ms, e, st', w')"
    and "untouched w0 w" "owned w0 cs w" "length (blobs w0) \<le> st"
  shows "untouched w0 w' \<and> owned w0 cs w' \<and> length (blobs w0) \<le> st'"
  using assms
proof (induction rs arbitrary: rc st w ms)
  case Nil
  then show ?case by simp
next
  case (Cons r rs)
  show ?case
  proof (cases "get_updated_state s (blob_at w st) r")
    case (Inl x)
    with Cons.prems show ?thesis by simp
  next
    case (Inr u)
    obtain st1 w1 where ap: "apply_upd u st w = (st1, w1)" by (cases "apply_upd u st w")
    from apply_upd_frame [OF Cons.prems(2,3,4) ap]
    have f1: "untouched w0 w1" "owned w0 cs w1" "length (blobs w0) \<le> st1" by simp_all
    show ?thesis
    proof (cases "checkpoint_due (state_checkpoint_interval s) (rc + 1)")
      case True
      obtain m w2 where cp: "checkpoint_state nm st1 cs w1 = (m, w2)"
        by (cases "checkpoint_state nm st1 cs w1")
      from checkpoint_state_frame [OF f1 cp] have f2: "untouched w0 w2" "owned w0 cs w2" by simp_all
      obtain ms' where rest: "records_loop s nm cs rs (rc + 1) st1 w2 = (ms', e, st', w')"
        using Cons.prems(1) Inr ap True cp by (auto split: prod.splits)
      from Cons.IH [OF rest f2 f1(3)] show ?thesis .
    next
      case False
      obtain ms' where rest: "records_loop s nm cs rs (rc + 1) st1 w1 = (ms', e, st', w')"
        using Cons.prems(1) Inr ap False by (auto split: prod.splits)
      from Cons.IH [OF rest f1] show ?thesis .
    qed
  qed
qed

lemma read_slice_frame:
  assumes "read_slice s c cs slice st w = (ms, e, st', w')"
    and "untouched w0 w" "owned w0 cs w" "length (blobs w0) \<le> st"
  shows "untouched w0 w' \<and> owned w0 cs w' \<and> length (blobs w0) \<le> st'"
proof -
  let ?rs = "items (read_records s incremental slice (Some (blob_at w st)) (or_None (cursor_field c)))"
  obtain ms1 e1 st1 w1 where loop: "records_loop s (configured_name c) cs ?rs 0 st w = (ms1, e1, st1, w1)"
    by (cases "records_loop s (configured_name c) cs ?rs 0 st w") auto
  from records_loop_frame [OF loop assms(2,3,4)]
  have f1: "untouched w0 w1" "owned w0 cs w1" "length (blobs w0) \<le> st1" by simp_all
  obtain m w2 where cp: "checkpoint_state (configured_name c) st1 cs w1 = (m, w2)"
    by (cases "checkpoint_state (configured_name c) st1 cs w1")
  from checkpoint_state_frame [OF f1 cp] have f2: "untouched w0 w2" "owned w0 cs w2" by simp_all
  from assms(1) loop cp have "st' = st1 \<and> (w' = w1 \<or> w' = w2)"
    by (auto simp: read_slice_def Let_def split: option.splits)
  with f1 f2 show ?thesis by auto
qed

lemma slices_loop_frame:
  assumes "slices_loop s c cs sls st w = (ms, e, st', w')"
    and "untouched w0 w" "owned w0 cs w" "length (blobs w0) \<le> st"
  shows "untouched w0 w' \<and> owned w0 cs w' \<and> length (blobs w0) \<le> st'"
  using assms
proof (induction sls arbitrary: st w ms)
  case Nil
  then show ?case by simp
next
  case (Cons sl sls)
  obtain ms1 e1 st1 w1 where sl: "read_slice s c cs sl st w = (ms1, e1, st1, w1)"
    by (cases "read_slice s c cs sl st w") auto
  from read_slice_frame [OF sl Cons.prems(2,3,4)]
  have f1: "untouched w0 w1" "owned w0 cs w1" "length (blobs w0) \<le> st1" by simp_all
  show ?case
  proof (cases e1)
    case None
    obtain ms' where rest: "slices_loop s c cs sls st1 w1 = (ms', e, st', w')"
      using Cons.prems(1) sl None by (auto split: prod.splits)
    from Cons.IH [OF rest f1] show ?thesis .
  next
    case (Some x)
    with Cons.prems(1) sl f1 show ?thesis by auto
  qed
qed

lemma get_stream_state_frame:
  assumes "get_stream_state cs nm w = (st, w1)" and "untouched w0 w" "owned w0 cs w"
  shows "untouched w0 w1 \<and> owned w0 cs w1 \<and> length (blobs w0) \<le> st"
proof (cases "map_of (outer_at w cs) nm")
  case None
  with assms untouched_alloc_blob [of w0 w "[]" st w1] show ?thesis
    by (auto simp: get_stream_state_def owned_def outer_at_def)
next
  case (Some a)
  then have "(nm, a) \<in> set (outer_at w cs)" by (rule map_of_SomeD)
  with assms(3) have "length (blobs w0) \<le> a" by (auto simp: owned_def list_all_iff)
  with Some assms show ?thesis by (auto simp: get_stream_state_def)
qed

lemma read_incremental_frame:
  assumes "read_incremental s c cs w = (ms, e, w')" and "untouched w0 w" "owned w0 cs w"
  shows "untouched w0 w' \<and> owned w0 cs w'"
proof -
  obtain st w1 where g: "get_stream_state cs (configured_name c) w = (st, w1)"
    by (cases "get_stream_state cs (configured_name c) w")
  from get_stream_state_frame [OF g assms(2,3)]
  have f1: "untouched w0 w1" "owned w0 cs w1" "length (blobs w0) \<le> st" by simp_all
  define w2 where "w2 = (if blob_at w1 st \<noteq> []
                   then logger (Info_setting_state_get (configured_name c)
                                  (map_of (blob_at w1 st) (configured_name c))) w1
                   else w1)"
  have f2: "untouched w0 w2" "owned w0 cs w2" using f1 by (simp_all add: w2_def)
  let ?sls = "items (stream_slices s incremental (cursor_field c) (Some (blob_at w2 st)))"
  obtain ms1 e1 st1 w3 where loop: "slices_loop s c cs ?sls st w2 = (ms1, e1, st1, w3)"
    by (cases "slices_loop s c cs ?sls st w2") auto
  from slices_loop_frame [OF loop f2 f1(3)] have f3: "untouched w0 w3" "owned w0 cs w3" by simp_all
  from assms(1) g loop have "w' = w3"
    by (auto simp: read_incremental_def Let_def w2_def split: option.splits)
  with f3 show ?thesis by simp
qed

lemma read_stream_frame:
  assumes "read_stream s c cs w = (ms, e, w')" and "untouched w0 w" "owned w0 cs w"
  shows "untouched w0 w' \<and> owned w0 cs w'"
proof (cases "use_incremental s c")
  case True
  obtain ms1 e1 w1 where r: "read_incremental s c cs (logger (Info_syncing_stream (configured_name c)) w) = (ms1, e1, w1)"
    by (cases "read_incremental s c cs (logger (Info_syncing_stream (configured_name c)) w)") auto
  from read_incremental_frame [OF r] assms(2,3) have "untouched w0 w1 \<and> owned w0 cs w1" by simp
  moreover from assms(1) True r have "w' = w1 \<or> (\<exists>x. w' = logger x w1)"
    by (auto simp: read_stream_def Let_def split: option.splits)
  ultimately show ?thesis by auto
next
  case False
  with assms(1) have "w' = logger (Info_syncing_stream (configured_name c)) w
     \<or> (\<exists>x. w' = logger x (logger (Info_syncing_stream (configured_name c)) w))"
    by (auto simp: read_stream_def Let_def split: option.splits prod.splits)
  with assms(2,3) show ?thesis by auto
qed

lemma catalog_loop_frame:
  assumes "catalog_loop self_name streams catalog cs w = (ms, e, w')"
    and "untouched w0 w" "owned w0 cs w"
  shows "untouched w0 w'"
  using assms
proof (induction catalog arbitrary: w ms)
  case Nil
  then show ?case by simp
next
  case (Cons c catalog)
  show ?case
  proof (cases "stream_instances streams (configured_name c)")
    case None
    with Cons.prems show ?thesis by auto
  next
    case (Some s)
    obtain ms1 e1 w1 where r: "read_stream s c cs w = (ms1, e1, w1)"
      by (cases "read_stream s c cs w") auto
    from read_stream_frame [OF r Cons.prems(2,3)] have f1: "untouched w0 w1" "owned w0 cs w1" by simp_all
    show ?thesis
    proof (cases e1)
      case None
      obtain ms' where rest: "catalog_loop self_name streams catalog cs w1 = (ms', e, w')"
        using Cons.prems(1) Some r None by (auto split: prod.splits)
      from Cons.IH [OF rest f1] show ?thesis .
    next
      case (Some x)
      with Cons.prems(1) \<open>stream_instances streams (configured_name c) = Some s\<close> r f1 show ?thesis by auto
    qed
  qed
qed

lemma deepcopy_items_frame:
  assumes "deepcopy_items memo kvs w = (d, w')" and "untouched w0 w"
    and "list_all (\<lambda>(a, a'). length (blobs w0) \<le> a') memo"
  shows "untouched w0 w' \<and> list_all (\<lambda>(k, a). length (blobs w0) \<le> a) d \<and> outers w' = outers w"
  using assms
proof (induction kvs arbitrary: memo w d w')
  case Nil
  then show ?case by simp
next
  case (Cons kv kvs)
  obtain k a where kv: "kv = (k, a)" by (cases kv)
  show ?case
  proof (cases "map_of memo a")
    case (Some a')
    obtain r w2 where rest: "deepcopy_items memo kvs w = (r, w2)" by (cases "deepcopy_items memo kvs w")
    from Some have "(a, a') \<in> set memo" by (rule map_of_SomeD)
    with Cons.prems(3) have "length (blobs w0) \<le> a'" by (auto simp: list_all_iff)
    with Cons.IH [OF rest Cons.prems(2,3)] Cons.prems(1) kv Some rest show ?thesis by auto
  next
    case None
    obtain a' w1 where al: "alloc_blob (blob_at w a) w = (a', w1)" by (cases "alloc_blob (blob_at w a) w")
    from untouched_alloc_blob [OF Cons.prems(2) al]
    have f1: "untouched w0 w1" "length (blobs w0) \<le> a'" "outers w1 = outers w" by simp_all
    obtain r w2 where rest: "deepcopy_items ((a, a') # memo) kvs w1 = (r, w2)"
      by (cases "deepcopy_items ((a, a') # memo) kvs w1")
    have "list_all (\<lambda>(a, a'). length (blobs w0) \<le> a') ((a, a') # memo)"
      using f1 Cons.prems(3) by simp
    from Cons.IH [OF rest f1(1) this] Cons.prems(1) kv None al rest f1 show ?thesis by auto
  qed
qed

lemma deepcopy_state_frame:
  assumes "deepcopy_state state w = (cs, w1)"
  shows "untouched w w1 \<and> owned w cs w1"
proof -
  let ?kvs = "case state of None \<Rightarrow> [] | Some a \<Rightarrow> outer_at w a"
  obtain d w' where dc: "deepcopy_items [] ?kvs w = (d, w')" by (cases "deepcopy_items [] ?kvs w")
  from deepcopy_items_frame [OF dc, of w]
  have f: "untouched w w'" "list_all (\<lambda>(k, a). length (blobs w) \<le> a) d" "outers w' = outers w"
    by simp_all
  from assms dc have cs: "cs = length (outers w')" and w1: "w1 = w'\<lparr>outers := outers w' @ [d]\<rparr>"
    by (auto simp: deepcopy_state_def alloc_outer_def)
  show ?thesis
    using f unfolding cs w1 by (auto simp: untouched_def owned_def outer_at_def prefix_snoc)
qed


text \<open>
  Claim C10. When \<^verbatim>\<open>read\<close> has run to its end or to an exception, every dictionary
  that was there when it was called, so the caller's state and every per-stream
  dictionary in it, is at its address with the content it had: \<^verbatim>\<open>read\<close> works on the
  deep copy it makes first, and writes only to that copy and to dictionaries made later.
\<close>

theorem read_leaves_callers_state:
  assumes "read self_name streams catalog state w = (ms, e, w')"
  shows "prefix (outers w) (outers w') \<and> prefix (blobs w) (blobs w')"
proof -
  obtain cs w1 where dc: "deepcopy_state state w = (cs, w1)" by (cases "deepcopy_state state w")
  from deepcopy_state_frame [OF dc] have f1: "untouched w w1" "owned w cs w1" by simp_all
  obtain ms1 e1 w2 where loop: "catalog_loop self_name streams catalog cs (logger (Info_starting_syncing self_name) w1) = (ms1, e1, w2)"
    by (cases "catalog_loop self_name streams catalog cs (logger (Info_starting_syncing self_name) w1)") auto
  from catalog_loop_frame [OF loop, of w] f1 have "untouched w w2" by simp
  moreover from assms dc loop have "w' = w2 \<or> (\<exists>x. w' = logger x w2)"
    by (auto simp: read_def split: option.splits)
  ultimately show ?thesis by (auto simp: untouched_def)
qed

theorem read_leaves_callers_state_witness:
  "prefix (outers (seeded_world 3))
     (outers (snd (snd (read ''SourceExample'' [example_stream] [example_configured] (Some 0)
                          (seeded_world 3)))))
   \<and> prefix (blobs (seeded_world 3))
       (blobs (snd (snd (read ''SourceExample'' [example_stream] [example_configured] (Some 0)
                           (seeded_world 3)))))
   \<and> snapshot (snd (snd (read ''SourceExample'' [example_stream] [example_configured] (Some 0)
                           (seeded_world 3)))) 0 = [(''messages'', [(''ts'', Number 3)])]
   \<and> snapshot (snd (snd (read ''SourceExample'' [example_stream] [example_configured] (Some 0)
                           (seeded_world 3)))) 1 = [(''messages'', [(''ts'', Number 5)])]"
proof -
  obtain ms e w' where run: "read ''SourceExample'' [example_stream] [example_configured] (Some 0)
                          (seeded_world 3) = (ms, e, w')"
    by (cases "read ''SourceExample'' [example_stream] [example_configured] (Some 0)
                          (seeded_world 3)") auto
  have s0: "snapshot (snd (snd (read ''SourceExample'' [example_stream] [example_configured] (Some 0)
                           (seeded_world 3)))) 0 = [(''messages'', [(''ts'', Number 3)])]"
    by code_simp
  have s1: "snapshot (snd (snd (read ''SourceExample'' [example_stream] [example_configured] (Some 0)
                           (seeded_world 3)))) 1 = [(''messages'', [(''ts'', Number 5)])]"
    by code_simp
  show ?thesis
    using read_leaves_callers_state [OF run] s0 s1 by (simp add: run)
qed

section \<open>Invariants carried through the loops\<close>

lemma inv_start:
  "checkpoint_invariant cs s nm G I P \<Longrightarrow> G tr w \<Longrightarrow> get_stream_state cs nm w = (st, w1)
     \<Longrightarrow> G tr w1 \<and> I tr st w1"
  by (auto simp: checkpoint_invariant_def)

lemma inv_logger:
  "checkpoint_invariant cs s nm G I P \<Longrightarrow> (G tr w \<longrightarrow> G tr (logger x w)) \<and> (I tr st w \<longrightarrow> I tr st (logger x w))"
  by (auto simp: checkpoint_invariant_def)

lemma inv_step:
  "checkpoint_invariant cs s nm G I P \<Longrightarrow> I tr st w \<Longrightarrow> get_updated_state s (blob_at w st) r = Inr u
     \<Longrightarrow> apply_upd u st w = (st1, w1) \<Longrightarrow> I (tr @ [RECORD nm r]) st1 w1"
  by (auto simp: checkpoint_invariant_def)

lemma inv_checkpoint:
  "checkpoint_invariant cs s nm G I P \<Longrightarrow> I tr st w \<Longrightarrow> checkpoint_state nm st cs w = (m, w1)
     \<Longrightarrow> I (tr @ [m]) st w1 \<and> G (tr @ [m]) w1 \<and> P tr m"
  by (auto simp: checkpoint_invariant_def)

lemma checked_append: "checked P tr (xs @ ys) \<longleftrightarrow> checked P tr xs \<and> checked P (tr @ xs) ys"
  by (induction xs arbitrary: tr) auto

lemma checked_nth:
  "checked P tr ms \<Longrightarrow> i < length ms \<Longrightarrow> is_STATE (ms ! i) \<Longrightarrow> P (tr @ take i ms) (ms ! i)"
proof (induction ms arbitrary: tr i)
  case Nil
  then show ?case by simp
next
  case (Cons m ms)
  show ?case
  proof (cases i)
    case 0
    with Cons.prems show ?thesis by simp
  next
    case (Suc j)
    with Cons.prems Cons.IH [of "tr @ [m]" j] show ?thesis by simp
  qed
qed

lemma checked_records: "list_all is_RECORD ms \<Longrightarrow> checked P tr ms"
  by (induction ms arbitrary: tr) (auto elim: is_RECORD.elims)

lemma records_loop_inv:
  assumes inv: "checkpoint_invariant cs s nm G I P"
    and "records_loop s nm cs rs rc st w = (ms, e, st', w')" and "I tr st w"
  shows "checked P tr ms \<and> (e = None \<longrightarrow> I (tr @ ms) st' w')"
  using assms(2,3)
proof (induction rs arbitrary: rc st w ms tr)
  case Nil
  then show ?case by simp
next
  case (Cons r rs)
  show ?case
  proof (cases "get_updated_state s (blob_at w st) r")
    case (Inl x)
    with Cons.prems(1) have "ms = [RECORD nm r]" "e = Some x"
      by (auto simp: as_airbyte_record_def)
    then show ?thesis by simp
  next
    case (Inr u)
    obtain st1 w1 where ap: "apply_upd u st w = (st1, w1)" by (cases "apply_upd u st w")
    from inv_step [OF inv Cons.prems(2) Inr ap] have i1: "I (tr @ [RECORD nm r]) st1 w1" .
    show ?thesis
    proof (cases "checkpoint_due (state_checkpoint_interval s) (rc + 1)")
      case True
      obtain m w2 where cp: "checkpoint_state nm st1 cs w1 = (m, w2)"
        by (cases "checkpoint_state nm st1 cs w1")
      from inv_checkpoint [OF inv i1 cp]
      have i2: "I ((tr @ [RECORD nm r]) @ [m]) st1 w2" and p: "P (tr @ [RECORD nm r]) m"
        by simp_all
      obtain ms' where rest: "records_loop s nm cs rs (rc + 1) st1 w2 = (ms', e, st', w')"
        and ms: "ms = RECORD nm r # m # ms'"
        using Cons.prems(1) Inr ap True cp by (auto simp: as_airbyte_record_def split: prod.splits)
      from Cons.IH [OF rest i2] p show ?thesis unfolding ms by simp
    next
      case False
      obtain ms' where rest: "records_loop s nm cs rs (rc + 1) st1 w1 = (ms', e, st', w')"
        and ms: "ms = RECORD nm r # ms'"
        using Cons.prems(1) Inr ap False by (auto simp: as_airbyte_record_def split: prod.splits)
      from Cons.IH [OF rest i1] show ?thesis unfolding ms by simp
    qed
  qed
qed

lemma read_slice_inv:
  assumes inv: "checkpoint_invariant cs s (configured_name c) G I P"
    and run: "read_slice s c cs slice st w = (ms, e, st', w')" and i0: "I tr st w"
  shows "checked P tr ms \<and> (e = None \<longrightarrow> I (tr @ ms) st' w' \<and> G (tr @ ms) w')"
proof -
  let ?g = "read_records s incremental slice (Some (blob_at w st)) (or_None (cursor_field c))"
  obtain ms1 e1 st1 w1 where loop: "records_loop s (configured_name c) cs (items ?g) 0 st w = (ms1, e1, st1, w1)"
    by (cases "records_loop s (configured_name c) cs (items ?g) 0 st w") auto
  from records_loop_inv [OF inv loop i0]
  have c1: "checked P tr ms1" and i1: "e1 = None \<longrightarrow> I (tr @ ms1) st1 w1" by simp_all
  show ?thesis
  proof (cases "e1 = None \<and> raises ?g = None")
    case True
    obtain m w2 where cp: "checkpoint_state (configured_name c) st1 cs w1 = (m, w2)"
      by (cases "checkpoint_state (configured_name c) st1 cs w1")
    from run loop True cp have r: "ms = ms1 @ [m]" "e = None" "st' = st1" "w' = w2"
      by (auto simp: read_slice_def Let_def)
    from i1 True have "I (tr @ ms1) st1 w1" by simp
    from inv_checkpoint [OF inv this cp]
    have "I ((tr @ ms1) @ [m]) st1 w2 \<and> G ((tr @ ms1) @ [m]) w2 \<and> P (tr @ ms1) m" .
    with c1 show ?thesis unfolding r by (simp add: checked_append)
  next
    case False
    have "ms = ms1 \<and> e \<noteq> None"
    proof (cases e1)
      case None
      with False obtain y where y: "raises ?g = Some y" by auto
      from run have "ms = ms1 \<and> e = Some y"
        unfolding read_slice_def Let_def loop None y by simp
      then show ?thesis by simp
    next
      case (Some y)
      from run have "ms = ms1 \<and> e = Some y"
        unfolding read_slice_def Let_def loop Some by simp
      then show ?thesis by simp
    qed
    with c1 show ?thesis by auto
  qed
qed

lemma slices_loop_inv:
  assumes inv: "checkpoint_invariant cs s (configured_name c) G I P"
    and "slices_loop s c cs sls st w = (ms, e, st', w')" and "I tr st w" and "G tr w"
  shows "checked P tr ms \<and> (e = None \<longrightarrow> I (tr @ ms) st' w' \<and> G (tr @ ms) w')"
  using assms(2,3,4)
proof (induction sls arbitrary: st w ms tr)
  case Nil
  then show ?case by simp
next
  case (Cons sl sls)
  obtain ms1 e1 st1 w1 where sl: "read_slice s c cs sl st w = (ms1, e1, st1, w1)"
    by (cases "read_slice s c cs sl st w") auto
  from read_slice_inv [OF inv sl Cons.prems(2)]
  have c1: "checked P tr ms1" and i1: "e1 = None \<longrightarrow> I (tr @ ms1) st1 w1 \<and> G (tr @ ms1) w1"
    by simp_all
  show ?case
  proof (cases e1)
    case None
    obtain ms' where rest: "slices_loop s c cs sls st1 w1 = (ms', e, st', w')"
      and ms: "ms = ms1 @ ms'"
      using Cons.prems(1) sl None by (auto split: prod.splits)
    from i1 None have "I (tr @ ms1) st1 w1" "G (tr @ ms1) w1" by simp_all
    from Cons.IH [OF rest this] c1 show ?thesis unfolding ms by (simp add: checked_append)
  next
    case (Some x)
    with Cons.prems(1) sl c1 show ?thesis by auto
  qed
qed

lemma read_incremental_inv:
  assumes inv: "checkpoint_invariant cs s (configured_name c) G I P"
    and run: "read_incremental s c cs w = (ms, e, w')" and g0: "G tr w"
  shows "checked P tr ms \<and> (e = None \<longrightarrow> G (tr @ ms) w')"
proof -
  obtain st w1 where g: "get_stream_state cs (configured_name c) w = (st, w1)"
    by (cases "get_stream_state cs (configured_name c) w")
  from inv_start [OF inv g0 g] have f1: "G tr w1" "I tr st w1" by simp_all
  define w2 where "w2 = (if blob_at w1 st \<noteq> []
                   then logger (Info_setting_state_get (configured_name c)
                                  (map_of (blob_at w1 st) (configured_name c))) w1
                   else w1)"
  from f1 inv_logger [OF inv] have f2: "G tr w2" "I tr st w2"
    unfolding w2_def by auto
  let ?sls = "stream_slices s incremental (cursor_field c) (Some (blob_at w2 st))"
  obtain ms1 e1 st1 w3 where loop: "slices_loop s c cs (items ?sls) st w2 = (ms1, e1, st1, w3)"
    by (cases "slices_loop s c cs (items ?sls) st w2") auto
  from slices_loop_inv [OF inv loop f2(2) f2(1)]
  have c1: "checked P tr ms1" and i1: "e1 = None \<longrightarrow> G (tr @ ms1) w3" by simp_all
  from run g loop have "ms = ms1 \<and> w' = w3 \<and> (e = None \<longrightarrow> e1 = None)"
    by (auto simp: read_incremental_def Let_def w2_def split: option.splits)
  with c1 i1 show ?thesis by auto
qed

lemma records_keep:
  assumes "\<And>tr n r. G tr w \<Longrightarrow> G (tr @ [RECORD n r]) w" and "list_all is_RECORD ms" and "G tr w"
  shows "G (tr @ ms) w"
  using assms(2,3)
proof (induction ms arbitrary: tr)
  case Nil
  then show ?case by simp
next
  case (Cons m ms)
  then obtain n r where m: "m = RECORD n r" by (cases m) auto
  from Cons.prems assms(1) [of tr n r] have "G (tr @ [m]) w" by (simp add: m)
  with Cons.IH [of "tr @ [m]"] Cons.prems show ?case by simp
qed

lemma read_stream_inv:
  assumes inv: "checkpoint_invariant cs s (configured_name c) G I P"
    and path: "use_incremental s c \<or> (\<forall>tr w n r. G tr w \<longrightarrow> G (tr @ [RECORD n r]) w)"
    and run: "read_stream s c cs w = (ms, e, w')" and g0: "G tr w"
  shows "checked P tr ms \<and> (e = None \<longrightarrow> G (tr @ ms) w')"
proof -
  let ?w1 = "logger (Info_syncing_stream (configured_name c)) w"
  from inv_logger [OF inv] have lg: "\<And>tr w x. G tr w \<Longrightarrow> G tr (logger x w)"
    by blast
  have g1: "G tr ?w1" using lg g0 by blast
  show ?thesis
  proof (cases "use_incremental s c")
    case True
    obtain ms1 e1 w2 where r: "read_incremental s c cs ?w1 = (ms1, e1, w2)"
      by (cases "read_incremental s c cs ?w1") auto
    from read_incremental_inv [OF inv r g1]
    have c1: "checked P tr ms1" and i1: "e1 = None \<longrightarrow> G (tr @ ms1) w2" by simp_all
    from run True r have "ms = ms1 \<and> e = e1 \<and> (e = None \<longrightarrow> (\<exists>x. w' = logger x w2))"
      by (auto simp: read_stream_def Let_def split: option.splits)
    with c1 i1 lg show ?thesis by auto
  next
    case False
    obtain ms1 e1 where r: "read_full_refresh s c = (ms1, e1)" by (cases "read_full_refresh s c")
    have rec: "list_all is_RECORD ms1"
      using read_full_refresh_only_records [of s c] r by simp
    from path False have keep: "\<And>tr n r. G tr ?w1 \<Longrightarrow> G (tr @ [RECORD n r]) ?w1" by blast
    have g2: "G (tr @ ms1) ?w1" using records_keep [of G ?w1, OF keep rec g1] .
    from run False r have "ms = ms1 \<and> (e = None \<longrightarrow> (\<exists>x. w' = logger x ?w1))"
      by (auto simp: read_stream_def Let_def split: option.splits)
    with rec g2 lg show ?thesis by (auto simp: checked_records)
  qed
qed

lemma catalog_loop_inv:
  assumes inv: "\<And>c s. c \<in> set catalog \<Longrightarrow> stream_instances streams (configured_name c) = Some s \<Longrightarrow>
             checkpoint_invariant cs s (configured_name c) G (I (configured_name c)) P \<and>
             (use_incremental s c \<or> (\<forall>tr w n r. G tr w \<longrightarrow> G (tr @ [RECORD n r]) w))"
    and "catalog_loop self_name streams catalog cs w = (ms, e, w')" and "G tr w"
  shows "checked P tr ms"
  using assms
proof (induction catalog arbitrary: w ms tr)
  case Nil
  then show ?case by simp
next
  case (Cons c catalog)
  show ?case
  proof (cases "stream_instances streams (configured_name c)")
    case None
    with Cons.prems show ?thesis by auto
  next
    case (Some s)
    obtain ms1 e1 w1 where r: "read_stream s c cs w = (ms1, e1, w1)"
      by (cases "read_stream s c cs w") auto
    from Cons.prems(1) [of c s] Some
    have i: "checkpoint_invariant cs s (configured_name c) G (I (configured_name c)) P"
      and p: "use_incremental s c \<or> (\<forall>tr w n r. G tr w \<longrightarrow> G (tr @ [RECORD n r]) w)"
      by simp_all
    from read_stream_inv [OF i p r Cons.prems(3)]
    have c1: "checked P tr ms1" and g1: "e1 = None \<longrightarrow> G (tr @ ms1) w1" by simp_all
    show ?thesis
    proof (cases e1)
      case None
      obtain ms' where rest: "catalog_loop self_name streams catalog cs w1 = (ms', e, w')"
        and ms: "ms = ms1 @ ms'"
        using Cons.prems(2) Some r None by (auto split: prod.splits)
      have "checked P (tr @ ms1) ms'"
        using Cons.IH [OF _ rest, of "tr @ ms1"] Cons.prems(1) g1 None by simp
      with c1 show ?thesis unfolding ms by (simp add: checked_append)
    next
      case (Some x)
      with Cons.prems(2) \<open>stream_instances streams (configured_name c) = Some s\<close> r c1
      show ?thesis by auto
    qed
  qed
qed


section \<open>Records are below every later checkpoint\<close>

lemma records_of_append [simp]: "records_of (xs @ ys) = records_of xs @ records_of ys"
  by (induction xs rule: records_of.induct) auto

lemma map_of_map_values:
  "map_of (map (\<lambda>(k, b). (k, f b)) xs) k = map_option f (map_of xs k)"
  by (induction xs) auto

lemma map_of_snapshot:
  "map_of (snapshot w cs) k = map_option (blob_at w) (map_of (outer_at w cs) k)"
  unfolding snapshot_def by (rule map_of_map_values)

lemma snapshot_logger [simp]: "snapshot (logger x w) cs = snapshot w cs"
  by (simp add: snapshot_def)

lemma blob_at_alloc_empty: "alloc_blob [] w = (a, w1) \<Longrightarrow> blob_at w1 b = blob_at w b"
  by (auto simp: alloc_blob_def blob_at_def nth_append)

lemma outers_alloc_blob: "alloc_blob d w = (a, w1) \<Longrightarrow> outers w1 = outers w"
  by (auto simp: alloc_blob_def)

lemma snapshot_cong:
  "outers w1 = outers w \<Longrightarrow> (\<And>b. blob_at w1 b = blob_at w b) \<Longrightarrow> snapshot w1 cs = snapshot w cs"
  by (simp add: snapshot_def outer_at_def)

lemma records_below_start:
  assumes "records_below cs tr w" and "get_stream_state cs nm w = (st, w1)"
  shows "records_below cs tr w1 \<and> records_below_in cs nm tr st w1"
proof (cases "map_of (outer_at w cs) nm")
  case None
  with assms(2) have al: "alloc_blob [] w = (st, w1)" by (simp add: get_stream_state_def)
  have sn: "snapshot w1 cs = snapshot w cs"
    using snapshot_cong [OF outers_alloc_blob [OF al]] blob_at_alloc_empty [OF al] by blast
  have o: "outers w1 = outers w" using outers_alloc_blob [OF al] .
  have no: "\<not> covered (snapshot w cs) nm r" for r
    using None by (simp add: covered_def map_of_snapshot)
  from assms(1) sn o no show ?thesis
    by (auto simp: records_below_def records_below_in_def)
next
  case (Some a)
  with assms(2) have eq: "st = a" "w1 = w" by (simp_all add: get_stream_state_def)
  have "covered (snapshot w cs) nm r \<Longrightarrow> le_blob r (blob_at w a)" for r
    using Some by (simp add: covered_def map_of_snapshot)
  with assms(1) show ?thesis
    unfolding eq by (auto simp: records_below_def records_below_in_def)
qed

lemma le_blob_mono:
  "le_blob r b \<Longrightarrow> tracked b = Some t \<Longrightarrow> tracked b' = Some t' \<Longrightarrow> t \<le> t' \<Longrightarrow> le_blob r b'"
  by (auto simp: le_blob_def split: option.splits)

lemma le_blob_tracked: "le_blob r b \<Longrightarrow> \<exists>t. tracked b = Some t"
  by (auto simp: le_blob_def split: option.splits)

text \<open>The Slack update never lowers what a dictionary of the store tracks.\<close>

lemma slack_step_mono:
  assumes "IncrementalMessageStream_get_updated_state (blob_at w st) r = Inr u"
    and "apply_upd u st w = (st1, w1)"
  shows "outers w1 = outers w"
    and "le_blob r (blob_at w1 st1)"
    and "le_blob r' (blob_at w st) \<Longrightarrow> le_blob r' (blob_at w1 st1)"
    and "le_blob r' (blob_at w a) \<Longrightarrow> le_blob r' (blob_at w1 a)"
proof -
  let ?b = "blob_at w st"
  from slack_update_ok [OF assms(1)] obtain x where x: "cursor_value r = Some x"
    and u: "u = (if ?b \<noteq> [] then InPlace else Fresh)
                  (AList.update ''ts'' (Number (max x (tracked_or_0 ?b))) ?b)"
    by blast
  let ?d = "AList.update ''ts'' (Number (max x (tracked_or_0 ?b))) ?b"
  from assms(2) u have b1: "blob_at w1 st1 = ?d" using apply_slack_update by blast
  have t1: "tracked (blob_at w1 st1) = Some (max x (tracked_or_0 ?b))"
    unfolding b1 by simp
  show "outers w1 = outers w"
    using assms(2) u by (auto simp: alloc_blob_def split: if_splits)
  show "le_blob r (blob_at w1 st1)"
    using x t1 by (simp add: le_blob_def)
  show old: "le_blob r' (blob_at w1 st1)" if "le_blob r' ?b" for r'
  proof -
    from le_blob_tracked [OF that] obtain t where t: "tracked ?b = Some t" by blast
    then have "t \<le> max x (tracked_or_0 ?b)" by (simp add: tracked_or_0_def)
    from le_blob_mono [OF that t t1 this] show ?thesis .
  qed
  show "le_blob r' (blob_at w1 a)" if h: "le_blob r' (blob_at w a)"
  proof (cases "?b = []")
    case True
    with assms(2) u have "w1 = w\<lparr>blobs := blobs w @ [?d]\<rparr>" by (simp add: alloc_blob_def)
    moreover from le_blob_tracked [OF h] have "blob_at w a \<noteq> []" by (auto simp: tracked_def)
    then have "a < length (blobs w)" by (auto simp: blob_at_def split: if_splits)
    ultimately have "blob_at w1 a = blob_at w a" by (simp add: blob_at_def nth_append)
    with h show ?thesis by simp
  next
    case False
    with assms(2) u have w1: "w1 = blob_store st ?d w" and st1: "st1 = st" by auto
    show ?thesis
    proof (cases "a = st")
      case True
      with old [of r'] h st1 show ?thesis by simp
    next
      case False
      then have "blob_at w1 a = blob_at w a" unfolding w1 by (simp add: blob_store_def blob_at_def)
      with h show ?thesis by simp
    qed
  qed
qed

lemma covered_mono:
  assumes "covered (snapshot w cs) n r" and "outers w1 = outers w"
    and "\<And>a. le_blob r (blob_at w a) \<Longrightarrow> le_blob r (blob_at w1 a)"
  shows "covered (snapshot w1 cs) n r"
proof -
  from assms(2) have o: "outer_at w1 cs = outer_at w cs" by (simp add: outer_at_def)
  from assms(1) obtain a where a: "map_of (outer_at w cs) n = Some a" and l: "le_blob r (blob_at w a)"
    by (auto simp: covered_def map_of_snapshot split: option.splits)
  from assms(3) [OF l] a o show ?thesis by (simp add: covered_def map_of_snapshot)
qed

lemma records_below_step:
  assumes "records_below_in cs nm tr st w"
    and "IncrementalMessageStream_get_updated_state (blob_at w st) r = Inr u"
    and "apply_upd u st w = (st1, w1)"
  shows "records_below_in cs nm (tr @ [RECORD nm r]) st1 w1"
proof -
  note m = slack_step_mono [OF assms(2,3)]
  have "cs < length (outers w1)" using assms(1) m(1) by (simp add: records_below_in_def)
  moreover have "if n = nm then le_blob r' (blob_at w1 st1) else covered (snapshot w1 cs) n r'"
    if "(n, r') \<in> set (records_of tr)" for n r'
  proof (cases "n = nm")
    case True
    with that assms(1) have "le_blob r' (blob_at w st)" by (auto simp: records_below_in_def)
    with m(3) True show ?thesis by simp
  next
    case False
    with that assms(1) have "covered (snapshot w cs) n r'" by (auto simp: records_below_in_def)
    from covered_mono [OF this m(1)] m(4) False show ?thesis by simp
  qed
  ultimately show ?thesis using m(2) by (auto simp: records_below_in_def)
qed

lemma snapshot_setitem:
  assumes "cs < length (outers w)"
  shows "snapshot (outer_setitem cs nm st w) cs = AList.update nm (blob_at w st) (snapshot w cs)"
proof -
  have "outer_at (outer_setitem cs nm st w) cs = AList.update nm st (outer_at w cs)"
    using assms by (simp add: outer_at_setitem_same)
  moreover have "map (\<lambda>(k, b). (k, f b)) (AList.update nm st xs)
                   = AList.update nm (f st) (map (\<lambda>(k, b). (k, f b)) xs)" for f :: "addr \<Rightarrow> pydict" and xs
    by (induction xs) auto
  ultimately show ?thesis by (simp add: snapshot_def)
qed

lemma checkpoint_state_snapshot:
  assumes "cs < length (outers w)" and "checkpoint_state nm st cs w = (m, w1)"
  shows "m = STATE (snapshot w1 cs)" and "snapshot w1 cs = AList.update nm (blob_at w st) (snapshot w cs)"
    and "cs < length (outers w1)" and "blob_at w1 a = blob_at w a"
proof -
  from assms(2) have w1: "w1 = outer_setitem cs nm st (logger (Info_setting_state nm (blob_at w st)) w)"
    and m: "m = STATE (snapshot w1 cs)"
    by (auto simp: checkpoint_state_def Let_def)
  show "m = STATE (snapshot w1 cs)" by fact
  have "cs < length (outers (logger (Info_setting_state nm (blob_at w st)) w))" using assms(1) by simp
  from snapshot_setitem [OF this, of nm st]
  show "snapshot w1 cs = AList.update nm (blob_at w st) (snapshot w cs)"
    unfolding w1 by (simp add: snapshot_def)
  show "cs < length (outers w1)" unfolding w1 using assms(1) by (simp add: outer_setitem_def)
  show "blob_at w1 a = blob_at w a" unfolding w1 by simp
qed

lemma records_below_checkpoint:
  assumes "records_below_in cs nm tr st w" and "checkpoint_state nm st cs w = (m, w1)"
  shows "records_below_in cs nm (tr @ [m]) st w1 \<and> records_below cs (tr @ [m]) w1 \<and> state_covers tr m"
proof -
  from assms(1) have v: "cs < length (outers w)" by (simp add: records_below_in_def)
  note c = checkpoint_state_snapshot [OF v assms(2)]
  have r: "records_of (tr @ [m]) = records_of tr" unfolding c(1) by simp
  have cov: "covered (snapshot w1 cs) n r'" "le_blob r' (blob_at w1 st) \<or> n \<noteq> nm"
    if "(n, r') \<in> set (records_of tr)" for n r'
  proof -
    from that assms(1)
    have h: "if n = nm then le_blob r' (blob_at w st) else covered (snapshot w cs) n r'"
      by (auto simp: records_below_in_def)
    then show "covered (snapshot w1 cs) n r'"
      unfolding c(2) by (auto simp: covered_def update_conv' split: if_splits)
    from h show "le_blob r' (blob_at w1 st) \<or> n \<noteq> nm"
      unfolding c(4) by (auto split: if_splits)
  qed
  show ?thesis
    unfolding records_below_in_def records_below_def state_covers_def r
    using c(1,3) cov by auto
qed

lemma records_below_invariant:
  assumes "get_updated_state s = IncrementalMessageStream_get_updated_state"
  shows "checkpoint_invariant cs s nm (records_below cs) (records_below_in cs nm) state_covers"
  unfolding checkpoint_invariant_def
proof (intro conjI allI impI)
  fix tr w st w1
  assume "records_below cs tr w" "get_stream_state cs nm w = (st, w1)"
  from records_below_start [OF this]
  show "records_below cs tr w1" "records_below_in cs nm tr st w1" by simp_all
next
  fix tr st w x
  assume "records_below_in cs nm tr st w"
  then show "records_below_in cs nm tr st (logger x w)"
    by (auto simp: records_below_in_def)
next
  fix tr w x
  assume "records_below cs tr w"
  then show "records_below cs tr (logger x w)"
    by (simp add: records_below_def)
next
  fix tr st w r u st1 w1
  assume "records_below_in cs nm tr st w" "get_updated_state s (blob_at w st) r = Inr u"
    "apply_upd u st w = (st1, w1)"
  with assms records_below_step [of cs nm tr st w r u st1 w1]
  show "records_below_in cs nm (tr @ [RECORD nm r]) st1 w1" by simp
next
  fix tr st w m w1
  assume "records_below_in cs nm tr st w" "checkpoint_state nm st cs w = (m, w1)"
  from records_below_checkpoint [OF this]
  show "records_below_in cs nm (tr @ [m]) st w1" "records_below cs (tr @ [m]) w1" "state_covers tr m"
    by simp_all
qed

lemma stream_instances_in: "stream_instances streams nm = Some s \<Longrightarrow> s \<in> set streams"
  unfolding stream_instances_def by (auto dest: map_of_SomeD)

lemma deepcopy_state_valid: "deepcopy_state state w = (cs, w1) \<Longrightarrow> cs < length (outers w1)"
  by (auto simp: deepcopy_state_def alloc_outer_def split: prod.splits)

lemma records_of_take: "j < i \<Longrightarrow> i \<le> length ms \<Longrightarrow> ms ! j = RECORD n r
   \<Longrightarrow> (n, r) \<in> set (records_of (take i ms))"
proof (induction ms arbitrary: i j)
  case Nil
  then show ?case by simp
next
  case (Cons m ms)
  obtain i' where i: "i = Suc i'" using Cons.prems(1) by (cases i) auto
  show ?case
  proof (cases j)
    case 0
    with Cons.prems i show ?thesis by simp
  next
    case (Suc j')
    with Cons.prems i Cons.IH [of j' i'] have "(n, r) \<in> set (records_of (take i' ms))" by simp
    then show ?thesis unfolding i by (cases m) auto
  qed
qed


text \<open>
  Claim C1. In a run of \<^verbatim>\<open>read\<close> in which every stream has the Slack streams' state
  update (the maximum of the old tracked value and the record's cursor value) and is read
  incrementally, every RECORD message that comes before a STATE message is bounded by it:
  the record has a cursor value, the STATE message has an entry for the record's stream
  that tracks a cursor value, and the record's value is less than or equal to the tracked
  one. This holds also for the messages of a run that ends with an exception.
\<close>

theorem records_below_later_state:
  assumes "\<forall>s \<in> set streams. get_updated_state s = IncrementalMessageStream_get_updated_state
                               \<and> supports_incremental s"
    and "\<forall>c \<in> set catalog. sync_mode c = incremental"
    and "read self_name streams catalog state w = (ms, e, w')"
    and "j < i" and "i < length ms" and "ms ! j = RECORD n r" and "ms ! i = STATE d"
  shows "\<exists>c b t. cursor_value r = Some c \<and> map_of d n = Some b \<and> tracked b = Some t \<and> c \<le> t"
proof -
  obtain cs w1 where dc: "deepcopy_state state w = (cs, w1)" by (cases "deepcopy_state state w")
  let ?w2 = "logger (Info_starting_syncing self_name) w1"
  obtain ms1 e1 w3 where loop: "catalog_loop self_name streams catalog cs ?w2 = (ms1, e1, w3)"
    by (cases "catalog_loop self_name streams catalog cs ?w2") auto
  from assms(3) dc loop have ms: "ms = ms1" by (auto simp: read_def split: option.splits)
  have g0: "records_below cs [] ?w2"
    using deepcopy_state_valid [OF dc] by (simp add: records_below_def)
  have inv: "checkpoint_invariant cs s (configured_name c) (records_below cs)
               (records_below_in cs (configured_name c)) state_covers \<and>
             (use_incremental s c \<or>
              (\<forall>tr w n r. records_below cs tr w \<longrightarrow> records_below cs (tr @ [RECORD n r]) w))"
    if "c \<in> set catalog" "stream_instances streams (configured_name c) = Some s" for c s
  proof -
    from stream_instances_in [OF that(2)] assms(1)
    have "get_updated_state s = IncrementalMessageStream_get_updated_state" "supports_incremental s"
      by simp_all
    moreover from that(1) assms(2) have "sync_mode c = incremental" by simp
    ultimately show ?thesis
      using records_below_invariant [of s cs "configured_name c"] by (simp add: use_incremental_def)
  qed
  from catalog_loop_inv [of catalog streams cs "records_below cs" "records_below_in cs" state_covers,
      OF inv loop g0]
  have "checked state_covers [] ms" unfolding ms by simp
  from checked_nth [OF this assms(5)] assms(7)
  have "state_covers (take i ms) (STATE d)" by simp
  moreover have "(n, r) \<in> set (records_of (take i ms))"
    using records_of_take [OF assms(4) _ assms(6)] assms(5) by simp
  ultimately have "covered d n r" by (auto simp: state_covers_def)
  then show ?thesis
    by (auto simp: covered_def le_blob_def split: option.splits)
qed

theorem records_below_later_state_witness:
  "fst (read ''SourceExample'' [example_stream] [example_configured] None example_world) =
     [RECORD ''messages'' [(''ts'', Number 1)],
      RECORD ''messages'' [(''ts'', Number 2)],
      STATE [(''messages'', [(''ts'', Number 2)])],
      RECORD ''messages'' [(''ts'', Number 3)],
      RECORD ''messages'' [(''ts'', Number 4)],
      STATE [(''messages'', [(''ts'', Number 4)])],
      RECORD ''messages'' [(''ts'', Number 5)],
      STATE [(''messages'', [(''ts'', Number 5)])]]
   \<and> (\<exists>c b t. cursor_value [(''ts'', Number 3)] = Some c
          \<and> map_of [(''messages'', [(''ts'', Number 4)])] ''messages'' = Some b
          \<and> tracked b = Some t \<and> c \<le> t)"
proof -
  obtain ms e w' where run:
    "read ''SourceExample'' [example_stream] [example_configured] None example_world = (ms, e, w')"
    by (cases "read ''SourceExample'' [example_stream] [example_configured] None example_world")
       auto
  have ms: "fst (read ''SourceExample'' [example_stream] [example_configured] None example_world) =
     [RECORD ''messages'' [(''ts'', Number 1)],
      RECORD ''messages'' [(''ts'', Number 2)],
      STATE [(''messages'', [(''ts'', Number 2)])],
      RECORD ''messages'' [(''ts'', Number 3)],
      RECORD ''messages'' [(''ts'', Number 4)],
      STATE [(''messages'', [(''ts'', Number 4)])],
      RECORD ''messages'' [(''ts'', Number 5)],
      STATE [(''messages'', [(''ts'', Number 5)])]]"
    by code_simp
  with run have ms': "ms =
     [RECORD ''messages'' [(''ts'', Number 1)],
      RECORD ''messages'' [(''ts'', Number 2)],
      STATE [(''messages'', [(''ts'', Number 2)])],
      RECORD ''messages'' [(''ts'', Number 3)],
      RECORD ''messages'' [(''ts'', Number 4)],
      STATE [(''messages'', [(''ts'', Number 4)])],
      RECORD ''messages'' [(''ts'', Number 5)],
      STATE [(''messages'', [(''ts'', Number 5)])]]"
    by simp
  have h1: "\<forall>s \<in> set [example_stream].
              get_updated_state s = IncrementalMessageStream_get_updated_state
              \<and> supports_incremental s"
    by (simp add: example_stream_def)
  have h2: "\<forall>c \<in> set [example_configured]. sync_mode c = incremental"
    by (simp add: example_configured_def)
  have j: "(3::nat) < 5" by simp
  have i: "5 < length ms" by (simp add: ms')
  have r: "ms ! 3 = RECORD ''messages'' [(''ts'', Number 3)]" by (simp add: ms')
  have d: "ms ! 5 = STATE [(''messages'', [(''ts'', Number 4)])]" by (simp add: ms')
  from records_below_later_state [OF h1 h2 run j i r d] ms show ?thesis by blast
qed

section \<open>Every checkpoint has the whole connector state\<close>

lemma last_state_snoc [simp]:
  "last_state d0 (tr @ [RECORD n r]) = last_state d0 tr"
  "last_state d0 (tr @ [STATE d]) = d"
  by (induction d0 tr rule: last_state.induct) auto

lemma sound_logger [simp]: "sound cs (logger x w) = sound cs w"
  by (simp add: sound_def)

lemma blob_at_append: "a < length (blobs w) \<Longrightarrow> blob_at (w\<lparr>blobs := blobs w @ [d]\<rparr>) a = blob_at w a"
  by (simp add: blob_at_def nth_append)

lemma snapshot_alloc:
  assumes "sound cs w" and "alloc_blob d w = (a, w1)"
  shows "sound cs w1" and "snapshot w1 cs = snapshot w cs" and "a < length (blobs w1)"
    and "a \<notin> snd ` set (outer_at w cs)" and "outer_at w1 cs = outer_at w cs" and "blob_at w1 a = d"
proof -
  from assms(2) have w1: "w1 = w\<lparr>blobs := blobs w @ [d]\<rparr>" and a: "a = length (blobs w)"
    by (auto simp: alloc_blob_def)
  show o: "outer_at w1 cs = outer_at w cs" unfolding w1 by (simp add: outer_at_def)
  from assms(1) have v: "\<And>k b. (k, b) \<in> set (outer_at w cs) \<Longrightarrow> b < length (blobs w)"
    by (auto simp: sound_def list_all_iff)
  show "sound cs w1"
    using assms(1) o v unfolding sound_def by (auto simp: w1 list_all_iff intro: less_SucI)
  show "snapshot w1 cs = snapshot w cs"
    unfolding snapshot_def o using v by (auto simp: w1 blob_at_append)
  show "a < length (blobs w1)" by (simp add: w1 a)
  show "a \<notin> snd ` set (outer_at w cs)" using v a by fastforce
  show "blob_at w1 a = d" by (simp add: w1 a blob_at_def)
qed

lemma whole_state_start:
  assumes "whole_state d0 cs tr w" and "get_stream_state cs nm w = (st, w1)"
  shows "whole_state d0 cs tr w1 \<and> whole_state_in d0 cs nm tr st w1"
proof (cases "map_of (outer_at w cs) nm")
  case None
  with assms(2) have al: "alloc_blob [] w = (st, w1)" by (simp add: get_stream_state_def)
  from assms(1) have s: "sound cs w" and e: "snapshot w cs = last_state d0 tr"
    by (simp_all add: whole_state_def)
  note a = snapshot_alloc [OF s al]
  show ?thesis
    unfolding whole_state_def whole_state_in_def using a e by simp
next
  case (Some a)
  with assms(2) have eq: "st = a" "w1 = w" by (simp_all add: get_stream_state_def)
  from Some have "(nm, a) \<in> set (outer_at w cs)" by (rule map_of_SomeD)
  with assms(1) have "a < length (blobs w)" by (auto simp: whole_state_def sound_def list_all_iff)
  with assms(1) Some show ?thesis
    unfolding eq whole_state_def whole_state_in_def by simp
qed

lemma map_values_none:
  assumes "st \<notin> snd ` set xs"
  shows "map (\<lambda>(k, a). (k, if a = st then d else f a)) xs = map (\<lambda>(k, a). (k, f a)) xs"
  using assms by (induction xs) auto

text \<open>Writing to the dictionary of one entry changes that entry of the content only.\<close>

lemma map_values_one:
  assumes "distinct (map snd xs)" and "map_of xs nm = Some st"
  shows "map (\<lambda>(k, a). (k, if a = st then d else f a)) xs
           = AList.update nm d (map (\<lambda>(k, a). (k, f a)) xs)"
  using assms
proof (induction xs)
  case Nil
  then show ?case by simp
next
  case (Cons x xs)
  obtain k a where x: "x = (k, a)" by (cases x)
  show ?case
  proof (cases "k = nm")
    case True
    with Cons.prems x have a: "a = st" by simp
    with Cons.prems(1) x have "st \<notin> snd ` set xs" by force
    then have "map (\<lambda>(k, a). (k, if a = st then d else f a)) xs = map (\<lambda>(k, a). (k, f a)) xs"
      by (rule map_values_none)
    with True a x show ?thesis by simp
  next
    case False
    with Cons.prems x have m: "map_of xs nm = Some st" by simp
    then have "(nm, st) \<in> set xs" by (rule map_of_SomeD)
    with Cons.prems(1) x have "a \<noteq> st" by force
    with False x Cons.IH [OF _ m] Cons.prems(1) show ?thesis by simp
  qed
qed

lemma blob_at_store:
  "blob_at (blob_store st d w) a = (if a = st \<and> st < length (blobs w) then d else blob_at w a)"
  by (auto simp: blob_at_def blob_store_def)

lemma whole_state_step:
  assumes "whole_state_in d0 cs nm tr st w" and "apply_upd u st w = (st1, w1)"
  shows "whole_state_in d0 cs nm (tr @ [RECORD nm r]) st1 w1"
proof (cases u)
  case (Fresh d)
  with assms(2) have al: "alloc_blob d w = (st1, w1)" by simp
  from assms(1) have s: "sound cs w" by (simp add: whole_state_in_def)
  note a = snapshot_alloc [OF s al]
  from assms(1) a show ?thesis
    unfolding whole_state_in_def by simp
next
  case (InPlace d)
  with assms(2) have st1: "st1 = st" and w1: "w1 = blob_store st d w" by auto
  from assms(1) have s: "sound cs w" and v: "st < length (blobs w)"
    and e: "\<forall>b. AList.update nm b (snapshot w cs) = AList.update nm b (last_state d0 tr)"
    and r: "map_of (outer_at w cs) nm = Some st \<or> st \<notin> snd ` set (outer_at w cs)"
    by (simp_all add: whole_state_in_def)
  have o: "outer_at w1 cs = outer_at w cs" unfolding w1 by simp
  have s1: "sound cs w1" using s unfolding sound_def o by (simp add: w1 blob_store_def)
  have sn: "snapshot w1 cs = map (\<lambda>(k, a). (k, if a = st then d else blob_at w a)) (outer_at w cs)"
    unfolding snapshot_def o w1 using v by (simp add: blob_at_store)
  have "AList.update nm b (snapshot w1 cs) = AList.update nm b (snapshot w cs)" for b
  proof (cases "map_of (outer_at w cs) nm = Some st")
    case True
    from s have "distinct (map snd (outer_at w cs))" by (simp add: sound_def)
    from map_values_one [OF this True, of d "blob_at w"]
    have "snapshot w1 cs = AList.update nm d (snapshot w cs)"
      unfolding sn by (simp add: snapshot_def)
    then show ?thesis by (simp add: update_last)
  next
    case False
    with r have "st \<notin> snd ` set (outer_at w cs)" by simp
    from map_values_none [OF this, of d "blob_at w"]
    have "snapshot w1 cs = snapshot w cs"
      unfolding sn by (simp add: snapshot_def)
    then show ?thesis by simp
  qed
  with e s1 v r show ?thesis
    unfolding whole_state_in_def st1 o by (simp add: w1 blob_store_def)
qed

lemma distinct_update_values:
  assumes "distinct (map snd xs)" and "v \<notin> snd ` set xs"
  shows "distinct (map snd (AList.update k v xs))"
  using assms
proof (induction xs)
  case Nil
  then show ?case by simp
next
  case (Cons x xs)
  have sub: "snd ` set (AList.update k v ys) \<subseteq> insert v (snd ` set ys)" for ys
    by (induction ys) auto
  from Cons show ?case using sub [of xs] by (cases x) (auto simp: image_iff)
qed

lemma whole_state_checkpoint:
  assumes "whole_state_in d0 cs nm tr st w" and "checkpoint_state nm st cs w = (m, w1)"
    and "nm \<in> names"
  shows "whole_state_in d0 cs nm (tr @ [m]) st w1 \<and> whole_state d0 cs (tr @ [m]) w1
           \<and> one_entry_set d0 names tr m"
proof -
  from assms(1) have s: "sound cs w" and v: "st < length (blobs w)"
    and e: "\<forall>b. AList.update nm b (snapshot w cs) = AList.update nm b (last_state d0 tr)"
    and r: "map_of (outer_at w cs) nm = Some st \<or> st \<notin> snd ` set (outer_at w cs)"
    by (simp_all add: whole_state_in_def)
  from s have cs: "cs < length (outers w)" by (simp add: sound_def)
  note c = checkpoint_state_snapshot [OF cs assms(2)]
  from assms(2) have w1: "w1 = outer_setitem cs nm st (logger (Info_setting_state nm (blob_at w st)) w)"
    by (auto simp: checkpoint_state_def Let_def)
  have o: "outer_at w1 cs = AList.update nm st (outer_at w cs)"
    unfolding w1 using cs by (simp add: outer_at_setitem_same)
  have b: "blobs w1 = blobs w" unfolding w1 by simp
  have d: "distinct (map snd (outer_at w1 cs))"
  proof (cases "map_of (outer_at w cs) nm = Some st")
    case True
    then have "AList.update nm st (outer_at w cs) = outer_at w cs" by (rule update_triv)
    with s o show ?thesis by (simp add: sound_def)
  next
    case False
    with r have "st \<notin> snd ` set (outer_at w cs)" by simp
    with s distinct_update_values [of "outer_at w cs" st nm] o show ?thesis by (simp add: sound_def)
  qed
  have l: "list_all (\<lambda>(k, a). a < length (blobs w1)) (outer_at w1 cs)"
    unfolding o b using s v by (simp add: sound_def list_all_update)
  have s1: "sound cs w1" using c(3) d l by (simp add: sound_def)
  have m1: "map_of (outer_at w1 cs) nm = Some st" unfolding o by (simp add: update_conv')
  have p: "snapshot w1 cs = AList.update nm (blob_at w st) (last_state d0 tr)"
    unfolding c(2) using e by simp
  show ?thesis
    unfolding whole_state_in_def whole_state_def one_entry_set_def c(1)
    using s1 m1 v b p assms(3) by auto
qed

lemma whole_state_invariant:
  assumes "nm \<in> names"
  shows "checkpoint_invariant cs s nm (whole_state d0 cs) (whole_state_in d0 cs nm)
           (one_entry_set d0 names)"
  unfolding checkpoint_invariant_def
proof (intro conjI allI impI)
  fix tr w st w1
  assume "whole_state d0 cs tr w" "get_stream_state cs nm w = (st, w1)"
  from whole_state_start [OF this]
  show "whole_state d0 cs tr w1" "whole_state_in d0 cs nm tr st w1" by simp_all
next
  fix tr st w x
  assume "whole_state_in d0 cs nm tr st w"
  then show "whole_state_in d0 cs nm tr st (logger x w)"
    by (simp add: whole_state_in_def)
next
  fix tr w x
  assume "whole_state d0 cs tr w"
  then show "whole_state d0 cs tr (logger x w)"
    by (simp add: whole_state_def)
next
  fix tr st w r u st1 w1
  assume "whole_state_in d0 cs nm tr st w" "get_updated_state s (blob_at w st) r = Inr u"
    "apply_upd u st w = (st1, w1)"
  from whole_state_step [OF this(1,3)]
  show "whole_state_in d0 cs nm (tr @ [RECORD nm r]) st1 w1" .
next
  fix tr st w m w1
  assume "whole_state_in d0 cs nm tr st w" "checkpoint_state nm st cs w = (m, w1)"
  from whole_state_checkpoint [OF this assms]
  show "whole_state_in d0 cs nm (tr @ [m]) st w1" "whole_state d0 cs (tr @ [m]) w1"
    "one_entry_set d0 names tr m"
    by simp_all
qed

lemma blob_at_prefix:
  "prefix (blobs w) (blobs w') \<Longrightarrow> a < length (blobs w) \<Longrightarrow> blob_at w' a = blob_at w a"
  by (auto simp: prefix_def blob_at_def nth_append)

lemma deepcopy_items_copy:
  assumes "deepcopy_items memo kvs w = (d, w')" and "distinct (map snd kvs)"
    and "\<forall>a \<in> snd ` set kvs. map_of memo a = None \<and> a < length (blobs w)"
  shows "outers w' = outers w \<and> prefix (blobs w) (blobs w') \<and>
         map (\<lambda>(k, a). (k, blob_at w' a)) d = map (\<lambda>(k, a). (k, blob_at w a)) kvs \<and>
         distinct (map snd d) \<and>
         (\<forall>a \<in> snd ` set d. length (blobs w) \<le> a \<and> a < length (blobs w'))"
  using assms
proof (induction kvs arbitrary: memo w d w')
  case Nil
  then show ?case by simp
next
  case (Cons kv kvs)
  obtain k a where kv: "kv = (k, a)" by (cases kv)
  from Cons.prems(3) kv have none: "map_of memo a = None" and va: "a < length (blobs w)" by simp_all
  define a' where "a' = length (blobs w)"
  define w1 where "w1 = w\<lparr>blobs := blobs w @ [blob_at w a]\<rparr>"
  have al: "alloc_blob (blob_at w a) w = (a', w1)" by (simp add: alloc_blob_def a'_def w1_def)
  obtain r where rest: "deepcopy_items ((a, a') # memo) kvs w1 = (r, w')" and d: "d = (k, a') # r"
    using Cons.prems(1) kv none al by (auto split: prod.splits)
  have h2: "distinct (map snd kvs)" using Cons.prems(2) by simp
  have h3: "\<forall>b \<in> snd ` set kvs. map_of ((a, a') # memo) b = None \<and> b < length (blobs w1)"
    using Cons.prems(2,3) kv by (auto simp: w1_def intro: less_SucI)
  from Cons.IH [OF rest h2 h3]
  have o: "outers w' = outers w1" and p: "prefix (blobs w1) (blobs w')"
    and c: "map (\<lambda>(k, a). (k, blob_at w' a)) r = map (\<lambda>(k, a). (k, blob_at w1 a)) kvs"
    and di: "distinct (map snd r)"
    and ra: "\<forall>b \<in> snd ` set r. length (blobs w1) \<le> b \<and> b < length (blobs w')"
    by simp_all
  have p0: "prefix (blobs w) (blobs w1)" by (simp add: w1_def)
  have c1: "map (\<lambda>(k, a). (k, blob_at w1 a)) kvs = map (\<lambda>(k, a). (k, blob_at w a)) kvs"
    using Cons.prems(3) blob_at_prefix [OF p0] by (auto intro!: map_cong)
  have "a' < length (blobs w1)" by (simp add: a'_def w1_def)
  from blob_at_prefix [OF p this] have ba: "blob_at w' a' = blob_at w a"
    by (simp add: blob_at_def w1_def a'_def)
  have l: "length (blobs w1) = Suc a'" by (simp add: w1_def a'_def)
  have "outers w' = outers w" using o by (simp add: w1_def)
  moreover have "prefix (blobs w) (blobs w')" using p0 p by (rule prefix_order.trans)
  moreover have "map (\<lambda>(k, a). (k, blob_at w' a)) d = map (\<lambda>(k, a). (k, blob_at w a)) (kv # kvs)"
    unfolding d kv using c c1 ba by simp
  moreover have "distinct (map snd d)" unfolding d using di ra l by force
  moreover have "\<forall>b \<in> snd ` set d. length (blobs w) \<le> b \<and> b < length (blobs w')"
    unfolding d using ra l \<open>a' < length (blobs w1)\<close> p by (auto simp: a'_def dest: prefix_length_le)
  ultimately show ?case by simp
qed

lemma deepcopy_state_copy:
  assumes "deepcopy_state state w = (cs, w1)"
    and "seed = (case state of None \<Rightarrow> [] | Some a \<Rightarrow> outer_at w a)"
    and "distinct (map snd seed)" and "list_all (\<lambda>(k, a). a < length (blobs w)) seed"
  shows "sound cs w1 \<and> snapshot w1 cs = map (\<lambda>(k, a). (k, blob_at w a)) seed"
proof -
  obtain d w' where dc: "deepcopy_items [] seed w = (d, w')" by (cases "deepcopy_items [] seed w")
  have h: "\<forall>a \<in> snd ` set seed. map_of [] a = None \<and> a < length (blobs w)"
    using assms(4) by (auto simp: list_all_iff)
  from deepcopy_items_copy [OF dc assms(3) h]
  have c: "map (\<lambda>(k, a). (k, blob_at w' a)) d = map (\<lambda>(k, a). (k, blob_at w a)) seed"
    and di: "distinct (map snd d)"
    and ra: "\<forall>a \<in> snd ` set d. length (blobs w) \<le> a \<and> a < length (blobs w')"
    by simp_all
  from assms(1) dc have cs: "cs = length (outers w')" and w1: "w1 = w'\<lparr>outers := outers w' @ [d]\<rparr>"
    unfolding deepcopy_state_def assms(2) [symmetric] by (auto simp: alloc_outer_def)
  have o: "outer_at w1 cs = d" by (simp add: outer_at_def cs w1)
  have b: "blob_at w1 a = blob_at w' a" for a by (simp add: blob_at_def w1)
  have "sound cs w1"
    unfolding sound_def o using di ra by (auto simp: cs w1 list_all_iff)
  moreover have "snapshot w1 cs = map (\<lambda>(k, a). (k, blob_at w a)) seed"
    unfolding snapshot_def o using c by (simp add: b)
  ultimately show ?thesis by simp
qed

lemma last_state_record: "last_state d0 (tr @ [RECORD n r]) = last_state d0 tr"
  by simp


text \<open>
  Claim C6. Take a caller's state whose entries refer to dictionaries of the store, no two
  to the same one (as a state parsed from JSON is). Then every STATE message of a run of
  \<^verbatim>\<open>read\<close> has the whole content of the STATE message before it, or of the seed state
  when it is the first, with the entry of one configured stream set to a new value: the
  entries of all other streams, those read earlier in the run and those seeded and not
  reached yet, are in it as they were. It is never the entry of the stream being read
  alone.
\<close>

theorem state_message_is_whole_map:
  assumes "seed = (case state of None \<Rightarrow> [] | Some a \<Rightarrow> outer_at w a)"
    and "distinct (map snd seed)" and "list_all (\<lambda>(k, a). a < length (blobs w)) seed"
    and "read self_name streams catalog state w = (ms, e, w')"
    and "i < length ms" and "ms ! i = STATE d"
  shows "\<exists>c \<in> set catalog. \<exists>b.
           d = AList.update (configured_name c) b
                 (last_state (map (\<lambda>(k, a). (k, blob_at w a)) seed) (take i ms))"
proof -
  let ?d0 = "map (\<lambda>(k, a). (k, blob_at w a)) seed"
  let ?names = "configured_name ` set catalog"
  obtain cs w1 where dc: "deepcopy_state state w = (cs, w1)" by (cases "deepcopy_state state w")
  let ?w2 = "logger (Info_starting_syncing self_name) w1"
  obtain ms1 e1 w3 where loop: "catalog_loop self_name streams catalog cs ?w2 = (ms1, e1, w3)"
    by (cases "catalog_loop self_name streams catalog cs ?w2") auto
  from assms(4) dc loop have ms: "ms = ms1" by (auto simp: read_def split: option.splits)
  from deepcopy_state_copy [OF dc assms(1,2,3)]
  have g0: "whole_state ?d0 cs [] ?w2" by (simp add: whole_state_def)
  have inv: "checkpoint_invariant cs s (configured_name c) (whole_state ?d0 cs)
               (whole_state_in ?d0 cs (configured_name c)) (one_entry_set ?d0 ?names) \<and>
             (use_incremental s c \<or>
              (\<forall>tr w n r. whole_state ?d0 cs tr w \<longrightarrow> whole_state ?d0 cs (tr @ [RECORD n r]) w))"
    if "c \<in> set catalog" "stream_instances streams (configured_name c) = Some s" for c s
  proof -
    from that(1) have "configured_name c \<in> ?names" by simp
    from whole_state_invariant [OF this, of cs s ?d0] show ?thesis
      by (simp add: whole_state_def)
  qed
  from catalog_loop_inv [of catalog streams cs "whole_state ?d0 cs" "whole_state_in ?d0 cs"
      "one_entry_set ?d0 ?names", OF inv loop g0]
  have "checked (one_entry_set ?d0 ?names) [] ms" unfolding ms by simp
  from checked_nth [OF this assms(5)] assms(6)
  have "one_entry_set ?d0 ?names (take i ms) (STATE d)" by simp
  then show ?thesis by (auto simp: one_entry_set_def)
qed


theorem state_message_is_whole_map_witness:
  "fst (read ''SourceExample'' [example_stream, example_threads None]
          [example_configured, example_threads_configured] (Some 0) two_stream_world) =
     [RECORD ''messages'' [(''ts'', Number 1)],
      RECORD ''messages'' [(''ts'', Number 2)],
      STATE [(''threads'', [(''ts'', Number 6)]), (''messages'', [(''ts'', Number 3)])],
      RECORD ''messages'' [(''ts'', Number 3)],
      RECORD ''messages'' [(''ts'', Number 4)],
      STATE [(''threads'', [(''ts'', Number 6)]), (''messages'', [(''ts'', Number 4)])],
      RECORD ''messages'' [(''ts'', Number 5)],
      STATE [(''threads'', [(''ts'', Number 6)]), (''messages'', [(''ts'', Number 5)])],
      RECORD ''threads'' [(''ts'', Number 7)],
      STATE [(''threads'', [(''ts'', Number 7)]), (''messages'', [(''ts'', Number 5)])]]
   \<and> (\<exists>c \<in> set [example_configured, example_threads_configured]. \<exists>b.
         [(''threads'', [(''ts'', Number 7)]), (''messages'', [(''ts'', Number 5)])] =
         AList.update (configured_name c) b
           [(''threads'', [(''ts'', Number 6)]), (''messages'', [(''ts'', Number 5)])])"
proof -
  let ?ms = "[RECORD ''messages'' [(''ts'', Number 1)],
      RECORD ''messages'' [(''ts'', Number 2)],
      STATE [(''threads'', [(''ts'', Number 6)]), (''messages'', [(''ts'', Number 3)])],
      RECORD ''messages'' [(''ts'', Number 3)],
      RECORD ''messages'' [(''ts'', Number 4)],
      STATE [(''threads'', [(''ts'', Number 6)]), (''messages'', [(''ts'', Number 4)])],
      RECORD ''messages'' [(''ts'', Number 5)],
      STATE [(''threads'', [(''ts'', Number 6)]), (''messages'', [(''ts'', Number 5)])],
      RECORD ''threads'' [(''ts'', Number 7)],
      STATE [(''threads'', [(''ts'', Number 7)]), (''messages'', [(''ts'', Number 5)])]]"
  obtain ms e w' where run:
    "read ''SourceExample'' [example_stream, example_threads None]
       [example_configured, example_threads_configured] (Some 0) two_stream_world = (ms, e, w')"
    by (cases "read ''SourceExample'' [example_stream, example_threads None]
          [example_configured, example_threads_configured] (Some 0) two_stream_world") auto
  have f: "fst (read ''SourceExample'' [example_stream, example_threads None]
          [example_configured, example_threads_configured] (Some 0) two_stream_world) = ?ms"
    by code_simp
  with run have ms: "ms = ?ms" by simp
  have seed: "[(''threads'', 0), (''messages'', 1)] =
                (case Some 0 of None \<Rightarrow> [] | Some a \<Rightarrow> outer_at two_stream_world a)"
    by (simp add: outer_at_def two_stream_world_def)
  have h2: "distinct (map snd [(''threads'', 0::nat), (''messages'', 1)])" by simp
  have h3: "list_all (\<lambda>(k, a). a < length (blobs two_stream_world))
              [(''threads'', 0), (''messages'', 1)]"
    by (simp add: two_stream_world_def)
  have i: "9 < length ms" by (simp add: ms)
  have d: "ms ! 9 = STATE [(''threads'', [(''ts'', Number 7)]), (''messages'', [(''ts'', Number 5)])]"
    by (simp add: ms)
  have l: "last_state (map (\<lambda>(k, a). (k, blob_at two_stream_world a))
                         [(''threads'', 0), (''messages'', 1)]) (take 9 ms)
             = [(''threads'', [(''ts'', Number 6)]), (''messages'', [(''ts'', Number 5)])]"
    unfolding ms by (simp add: blob_at_def two_stream_world_def)
  from state_message_is_whole_map [OF seed h2 h3 run i d] f show ?thesis
    unfolding l by blast
qed

section \<open>An exception ends the run\<close>

lemma catalog_loop_append:
  assumes "catalog_loop self_name streams pre cs w = (ms1, None, w1)"
  shows "catalog_loop self_name streams (pre @ rest) cs w =
           (case catalog_loop self_name streams rest cs w1 of (ms2, r) \<Rightarrow> (ms1 @ ms2, r))"
  using assms
proof (induction pre arbitrary: w ms1)
  case Nil
  then show ?case by (simp split: prod.splits)
next
  case (Cons c pre)
  from Cons.prems obtain s where s: "stream_instances streams (configured_name c) = Some s"
    by (auto split: option.splits)
  obtain ms0 e0 w0 where r: "read_stream s c cs w = (ms0, e0, w0)"
    by (cases "read_stream s c cs w") auto
  from Cons.prems s r have e0: "e0 = None" by (auto split: option.splits)
  obtain ms' where rest: "catalog_loop self_name streams pre cs w0 = (ms', None, w1)"
    and ms1: "ms1 = ms0 @ ms'"
    using Cons.prems s r e0 by (auto split: prod.splits)
  from Cons.IH [OF rest] s r e0 ms1 show ?case
    by (auto split: prod.splits)
qed


text \<open>
  Claim C9, as amended. When the streams configured before \<open>c\<close> have been read to their
  ends and reading the stream of \<open>c\<close> raises \<open>e\<close> (from its slices, its records or its
  state update) after the messages \<open>ms2\<close>, then \<^verbatim>\<open>read\<close> has yielded the messages of the
  earlier streams and \<open>ms2\<close>, raises the same \<open>e\<close>, and has logged one exception entry
  last: whatever streams are configured after \<open>c\<close> are not read and emit nothing.
\<close>

theorem exception_aborts_run:
  assumes "deepcopy_state state w = (cs, w0)"
    and "catalog_loop self_name streams pre cs (logger (Info_starting_syncing self_name) w0)
           = (ms1, None, w1)"
    and "stream_instances streams (configured_name c) = Some s"
    and "read_stream s c cs w1 = (ms2, Some e, w2)"
  shows "\<exists>x. read self_name streams (pre @ c # post) state w
               = (ms1 @ ms2, Some e, logger (Exception_while_reading x) w2)"
proof -
  have "catalog_loop self_name streams (c # post) cs w1
          = (ms2, Some e, logger (Exception_while_reading self_name) w2)"
    using assms(3,4) by simp
  with catalog_loop_append [OF assms(2), of "c # post"]
  have "catalog_loop self_name streams (pre @ c # post) cs
          (logger (Info_starting_syncing self_name) w0)
          = (ms1 @ ms2, Some e, logger (Exception_while_reading self_name) w2)"
    by simp
  with assms(1) show ?thesis by (auto simp: read_def)
qed


theorem exception_aborts_run_witness:
  "\<exists>x. read ''SourceExample'' [example_stream, example_threads (Some (StreamError ''HTTP 500''))]
          ([example_configured] @ example_threads_configured # [example_configured])
          None example_world =
        ([RECORD ''messages'' [(''ts'', Number 1)],
          RECORD ''messages'' [(''ts'', Number 2)],
          STATE [(''messages'', [(''ts'', Number 2)])],
          RECORD ''messages'' [(''ts'', Number 3)],
          RECORD ''messages'' [(''ts'', Number 4)],
          STATE [(''messages'', [(''ts'', Number 4)])],
          RECORD ''messages'' [(''ts'', Number 5)],
          STATE [(''messages'', [(''ts'', Number 5)])]] @
         [RECORD ''threads'' [(''ts'', Number 7)]],
         Some (StreamError ''HTTP 500''),
         logger (Exception_while_reading x)
           \<lparr>outers = [[], [(''messages'', 2)]],
            blobs = [[], [], [(''ts'', Number 5)], [], [(''ts'', Number 7)]],
            logs = [Info_starting_syncing ''SourceExample'',
                    Info_syncing_stream ''messages'',
                    Info_setting_state ''messages'' [(''ts'', Number 2)],
                    Info_setting_state ''messages'' [(''ts'', Number 4)],
                    Info_setting_state ''messages'' [(''ts'', Number 5)],
                    Info_read_records 5 ''messages'',
                    Info_syncing_stream ''threads'']\<rparr>)"
proof -
  let ?streams = "[example_stream, example_threads (Some (StreamError ''HTTP 500''))]"
  let ?w0 = "\<lparr>outers = [[], []], blobs = [[]], logs = []\<rparr>"
  let ?w1 = "\<lparr>outers = [[], [(''messages'', 2)]], blobs = [[], [], [(''ts'', Number 5)]],
             logs = [Info_starting_syncing ''SourceExample'',
                     Info_syncing_stream ''messages'',
                     Info_setting_state ''messages'' [(''ts'', Number 2)],
                     Info_setting_state ''messages'' [(''ts'', Number 4)],
                     Info_setting_state ''messages'' [(''ts'', Number 5)],
                     Info_read_records 5 ''messages'']\<rparr>"
  have a: "deepcopy_state None example_world = (1, ?w0)"
    by code_simp
  have b: "catalog_loop ''SourceExample'' ?streams [example_configured] 1
             (logger (Info_starting_syncing ''SourceExample'') ?w0) =
           ([RECORD ''messages'' [(''ts'', Number 1)],
             RECORD ''messages'' [(''ts'', Number 2)],
             STATE [(''messages'', [(''ts'', Number 2)])],
             RECORD ''messages'' [(''ts'', Number 3)],
             RECORD ''messages'' [(''ts'', Number 4)],
             STATE [(''messages'', [(''ts'', Number 4)])],
             RECORD ''messages'' [(''ts'', Number 5)],
             STATE [(''messages'', [(''ts'', Number 5)])]], None, ?w1)"
    by code_simp
  have c: "stream_instances ?streams (configured_name example_threads_configured)
             = Some (example_threads (Some (StreamError ''HTTP 500'')))"
    by (simp add: stream_instances_def example_threads_configured_def example_stream_def
                  example_threads_def)
  have d: "read_stream (example_threads (Some (StreamError ''HTTP 500'')))
             example_threads_configured 1 ?w1 =
           ([RECORD ''threads'' [(''ts'', Number 7)]], Some (StreamError ''HTTP 500''),
            \<lparr>outers = [[], [(''messages'', 2)]],
             blobs = [[], [], [(''ts'', Number 5)], [], [(''ts'', Number 7)]],
             logs = [Info_starting_syncing ''SourceExample'',
                     Info_syncing_stream ''messages'',
                     Info_setting_state ''messages'' [(''ts'', Number 2)],
                     Info_setting_state ''messages'' [(''ts'', Number 4)],
                     Info_setting_state ''messages'' [(''ts'', Number 5)],
                     Info_read_records 5 ''messages'',
                     Info_syncing_stream ''threads'']\<rparr>)"
    by code_simp
  from exception_aborts_run [OF a b c d, of "[example_configured]"] show ?thesis .
qed

text \<open>
  Claim C9 as it is written fails in what the failure log has: a run in which the stream
  \<^verbatim>\<open>threads\<close> raises after one record logs the name of the source, not of the stream,
  and nowhere the number of records read from the stream.
\<close>

theorem exception_log_counterexample:
  "read ''SourceExample'' [example_threads (Some (StreamError ''HTTP 500''))]
     [example_threads_configured] None example_world =
     ([RECORD ''threads'' [(''ts'', Number 7)]], Some (StreamError ''HTTP 500''),
      \<lparr>outers = [[], []], blobs = [[], [], [(''ts'', Number 7)]],
       logs = [Info_starting_syncing ''SourceExample'',
               Info_syncing_stream ''threads'',
               Exception_while_reading ''SourceExample'']\<rparr>)
   \<and> Exception_while_reading ''threads''
        \<notin> set [Info_starting_syncing ''SourceExample'', Info_syncing_stream ''threads'',
                 Exception_while_reading ''SourceExample'']
   \<and> Info_read_records 1 ''threads''
        \<notin> set [Info_starting_syncing ''SourceExample'', Info_syncing_stream ''threads'',
                 Exception_while_reading ''SourceExample'']"
proof -
  have "read ''SourceExample'' [example_threads (Some (StreamError ''HTTP 500''))]
     [example_threads_configured] None example_world =
     ([RECORD ''threads'' [(''ts'', Number 7)]], Some (StreamError ''HTTP 500''),
      \<lparr>outers = [[], []], blobs = [[], [], [(''ts'', Number 7)]],
       logs = [Info_starting_syncing ''SourceExample'',
               Info_syncing_stream ''threads'',
               Exception_while_reading ''SourceExample'']\<rparr>)"
    by code_simp
  then show ?thesis by simp
qed

end
